theory Spec2Isabelle
  imports Complex_Main "HOL-Library.Multiset" "HOL-Library.Sublist"
begin

section \<open>Shared data model (gs\_config.py)\<close>

text \<open>
  One entry of \<open>SKILLS_DATABASE\<close>. The display fields \<open>Nome\<close> and \<open>Categoria\<close> are
  never read by the algorithms below and are left out. The numeric fields are Python
  ints; \<open>Pre_Reqs\<close> is a Python list, so order and repetitions are kept.
\<close>

record skill =
  Valor :: int
  Tempo :: int
  Complexidade :: int
  Pre_Reqs :: "string list"

text \<open>
  A Python dict keeps insertion order, and \<open>gs_graph_validation.py\<close> iterates over
  \<open>items()\<close>, so the database is an association list; a key occurs once in a dict,
  hence the lists of interest have distinct keys.
\<close>

type_synonym skills_db = "(string \<times> skill) list"

datatype error =
  KeyError string | ValueError string | ZeroDivisionError | RecursionError | NonTermination

text \<open>
  The first four are Python exceptions. \<open>NonTermination\<close> is not one: it stands for a
  \<open>while\<close> loop that never exits, where the model cannot show that it does.
\<close>

text \<open>\<open>skills_db[k]\<close>: raises \<open>KeyError\<close> on a missing key.\<close>

definition getitem :: "skills_db \<Rightarrow> string \<Rightarrow> error + skill" where
  "getitem db k = (case map_of db k of None \<Rightarrow> Inl (KeyError k) | Some v \<Rightarrow> Inr v)"

text \<open>\<open>sum(self.skills_db[s][field] for s in ids)\<close>.\<close>

fun sum_field :: "skills_db \<Rightarrow> (skill \<Rightarrow> int) \<Rightarrow> string list \<Rightarrow> error + int" where
  "sum_field db f [] = Inr 0"
| "sum_field db f (s # ss) =
     (case getitem db s of
        Inl e \<Rightarrow> Inl e
      | Inr r \<Rightarrow> (case sum_field db f ss of Inl e \<Rightarrow> Inl e | Inr n \<Rightarrow> Inr (f r + n)))"

section \<open>ImprovedAdaptabilityOptimizer (gs\_challenge3.py)\<close>

record optimizer =
  opt_skills_db :: skills_db
  basic_skills :: "string list"
  min_adapt :: int

text \<open>The constructor's loop: every basic skill must exist and have no prerequisite.\<close>

fun check_basic :: "skills_db \<Rightarrow> string list \<Rightarrow> error + unit" where
  "check_basic db [] = Inr ()"
| "check_basic db (skill_id # rest) =
     (case getitem db skill_id of
        Inl e \<Rightarrow> Inl e
      | Inr r \<Rightarrow> if Pre_Reqs r \<noteq> [] then Inl (ValueError skill_id) else check_basic db rest)"

definition init_optimizer :: "skills_db \<Rightarrow> string list \<Rightarrow> int \<Rightarrow> error + optimizer" where
  "init_optimizer db basic m =
     (case check_basic db basic of
        Inl e \<Rightarrow> Inl e
      | Inr _ \<Rightarrow> Inr \<lparr>opt_skills_db = db, basic_skills = basic, min_adapt = m\<rparr>)"

record subset_result =
  algorithm :: string
  selected :: "string list"
  total_value :: int
  total_time :: int
  num_skills :: nat

subsection \<open>greedy\_solution\<close>

text \<open>
  The sort key \<open>Valor / Tempo\<close> of every candidate, computed once per element as
  \<open>sorted\<close> does. Python's true division yields a float; the quotient is kept exact
  here (the two orders agree as long as distinct quotients stay distinct after
  rounding, which holds for operands below \<open>2 ^ 26\<close>).
\<close>

fun ratio_keys :: "skills_db \<Rightarrow> string list \<Rightarrow> error + (string \<times> rat) list" where
  "ratio_keys db [] = Inr []"
| "ratio_keys db (s # ss) =
     (case getitem db s of
        Inl e \<Rightarrow> Inl e
      | Inr r \<Rightarrow>
          if Tempo r = 0 then Inl ZeroDivisionError
          else (case ratio_keys db ss of
                  Inl e \<Rightarrow> Inl e
                | Inr ks \<Rightarrow> Inr ((s, of_int (Valor r) / of_int (Tempo r)) # ks)))"

text \<open>\<open>sorted(..., reverse=True)\<close> is stable: equal keys keep their original order.\<close>

definition sorted_desc :: "(string \<times> rat) list \<Rightarrow> string list" where
  "sorted_desc ks = map fst (sort_key (\<lambda>p. - snd p) ks)"

definition greedy_label :: string where
  "greedy_label = ''Guloso (V/T)''"

fun greedy_loop ::
  "skills_db \<Rightarrow> int \<Rightarrow> string list \<Rightarrow> string list \<Rightarrow> int \<Rightarrow> int \<Rightarrow> error + subset_result" where
  "greedy_loop db m [] sel tv tt =
     Inr \<lparr>algorithm = greedy_label, selected = sel, total_value = tv, total_time = tt,
          num_skills = length sel\<rparr>"
| "greedy_loop db m (skill_id # rest) sel tv tt =
     (case getitem db skill_id of
        Inl e \<Rightarrow> Inl e
      | Inr r \<Rightarrow>
          if tv + Valor r \<ge> m
          then Inr \<lparr>algorithm = greedy_label, selected = sel @ [skill_id],
                    total_value = tv + Valor r, total_time = tt + Tempo r,
                    num_skills = length (sel @ [skill_id])\<rparr>
          else greedy_loop db m rest (sel @ [skill_id]) (tv + Valor r) (tt + Tempo r))"

definition greedy_solution :: "optimizer \<Rightarrow> error + subset_result" where
  "greedy_solution opt =
     (case ratio_keys (opt_skills_db opt) (basic_skills opt) of
        Inl e \<Rightarrow> Inl e
      | Inr ks \<Rightarrow> greedy_loop (opt_skills_db opt) (min_adapt opt) (sorted_desc ks) [] 0 0)"

subsection \<open>optimal\_solution\_bruteforce\<close>

text \<open>\<open>itertools.combinations(xs, k)\<close>: the \<open>k\<close>-element selections in index order.\<close>

fun combinations :: "'a list \<Rightarrow> nat \<Rightarrow> 'a list list" where
  "combinations xs 0 = [[]]"
| "combinations [] (Suc k) = []"
| "combinations (x # xs) (Suc k) = map ((#) x) (combinations xs k) @ combinations xs (Suc k)"

text \<open>
  The search state \<open>(best_time, best_solution)\<close>; \<open>None\<close> stands for the initial
  \<open>float('inf')\<close> and \<open>None\<close> of the source.
\<close>

type_synonym bf_best = "(int \<times> string list) option"

definition bf_try :: "skills_db \<Rightarrow> int \<Rightarrow> string list \<Rightarrow> bf_best \<Rightarrow> error + bf_best" where
  "bf_try db m combo best =
     (case sum_field db Valor combo of
        Inl e \<Rightarrow> Inl e
      | Inr tv \<Rightarrow>
          if tv \<ge> m
          then (case sum_field db Tempo combo of
                  Inl e \<Rightarrow> Inl e
                | Inr tt \<Rightarrow>
                    (case best of
                       None \<Rightarrow> Inr (Some (tt, combo))
                     | Some (bt, bs) \<Rightarrow> if tt < bt then Inr (Some (tt, combo)) else Inr best))
          else Inr best)"

fun bf_loop :: "skills_db \<Rightarrow> int \<Rightarrow> string list list \<Rightarrow> bf_best \<Rightarrow> error + bf_best" where
  "bf_loop db m [] best = Inr best"
| "bf_loop db m (combo # rest) best =
     (case bf_try db m combo best of Inl e \<Rightarrow> Inl e | Inr best' \<Rightarrow> bf_loop db m rest best')"

definition bf_label :: string where
  "bf_label = [CHR 0xC3, CHR 0x93] @ ''timo (For'' @ [CHR 0xC3, CHR 0xA7] @ ''a Bruta)''"

definition optimal_solution_bruteforce :: "optimizer \<Rightarrow> error + subset_result option" where
  "optimal_solution_bruteforce opt =
     (let db = opt_skills_db opt; xs = basic_skills opt in
      case bf_loop db (min_adapt opt)
             (concat (map (combinations xs) [1 ..< length xs + 1])) None of
        Inl e \<Rightarrow> Inl e
      | Inr None \<Rightarrow> Inr None
      | Inr (Some (best_time, best_solution)) \<Rightarrow>
          (case sum_field db Valor best_solution of
             Inl e \<Rightarrow> Inl e
           | Inr tv \<Rightarrow>
               Inr (Some \<lparr>algorithm = bf_label, selected = best_solution, total_value = tv,
                          total_time = best_time, num_skills = length best_solution\<rparr>)))"

subsection \<open>optimal\_solution\_dp\<close>

text \<open>
  The table \<open>dp\<close>: a dict from value level to \<open>(time, skills)\<close>, in insertion order.
  \<open>dict_set\<close> is \<open>d[k] = v\<close>: an existing key keeps its position.
\<close>

type_synonym value_table = "(int \<times> (int \<times> string list)) list"

fun dict_set :: "'k \<Rightarrow> 'v \<Rightarrow> ('k \<times> 'v) list \<Rightarrow> ('k \<times> 'v) list" where
  "dict_set k v [] = [(k, v)]"
| "dict_set k v ((k', v') # rest) =
     (if k = k' then (k, v) # rest else (k', v') # dict_set k v rest)"

definition relax_value ::
  "string \<Rightarrow> skill \<Rightarrow> int \<times> (int \<times> string list) \<Rightarrow> value_table \<Rightarrow> value_table" where
  "relax_value skill_id r entry new_dp =
     (case entry of (current_value, (current_time, current_skills)) \<Rightarrow>
        let new_value = current_value + Valor r;
            new_time = current_time + Tempo r;
            new_skills = current_skills @ [skill_id]
        in (case map_of new_dp new_value of
              None \<Rightarrow> dict_set new_value (new_time, new_skills) new_dp
            | Some old \<Rightarrow>
                if new_time < fst old then dict_set new_value (new_time, new_skills) new_dp
                else new_dp))"

fun value_dp_loop :: "skills_db \<Rightarrow> string list \<Rightarrow> value_table \<Rightarrow> error + value_table" where
  "value_dp_loop db [] dp = Inr dp"
| "value_dp_loop db (skill_id # rest) dp =
     (case getitem db skill_id of
        Inl e \<Rightarrow> Inl e
      | Inr r \<Rightarrow> value_dp_loop db rest (fold (relax_value skill_id r) dp dp))"

text \<open>The final scan: \<open>(best_time, best_solution, best_value)\<close>, \<open>None\<close> before a hit.\<close>

definition dp_pick ::
  "int \<Rightarrow> int \<times> (int \<times> string list) \<Rightarrow> (int \<times> string list \<times> int) option
     \<Rightarrow> (int \<times> string list \<times> int) option" where
  "dp_pick m entry best =
     (case entry of (v, (t, sk)) \<Rightarrow>
        if v \<ge> m \<and> (case best of None \<Rightarrow> True | Some (bt, _) \<Rightarrow> t < bt)
        then Some (t, sk, v) else best)"

definition dp_label :: string where
  "dp_label = [CHR 0xC3, CHR 0x93] @ ''timo (DP)''"

definition optimal_solution_dp :: "optimizer \<Rightarrow> error + subset_result option" where
  "optimal_solution_dp opt =
     (case value_dp_loop (opt_skills_db opt) (basic_skills opt) [(0, (0, []))] of
        Inl e \<Rightarrow> Inl e
      | Inr dp \<Rightarrow>
          (case fold (dp_pick (min_adapt opt)) dp None of
             None \<Rightarrow> Inr None
           | Some (best_time, best_solution, best_value) \<Rightarrow>
               Inr (Some \<lparr>algorithm = dp_label, selected = best_solution,
                          total_value = best_value, total_time = best_time,
                          num_skills = length best_solution\<rparr>)))"

subsection \<open>The literal data of demonstrate\_counterexample\<close>

text \<open>
  The method returns a literal dict and runs nothing. Its database gives \<open>Valor\<close> and
  \<open>Tempo\<close> only; the candidates are basic skills, so \<open>Pre_Reqs\<close> is empty, and
  \<open>Complexidade\<close>, which this optimizer never reads, is set to 1. The candidates are
  taken in the order of the literal, and the threshold is its \<open>min_adaptability\<close>.
\<close>

definition counterexample_db :: skills_db where
  "counterexample_db =
     [(''A'', \<lparr>Valor = 16, Tempo = 10, Complexidade = 1, Pre_Reqs = []\<rparr>),
      (''B'', \<lparr>Valor = 12, Tempo = 7, Complexidade = 1, Pre_Reqs = []\<rparr>),
      (''C'', \<lparr>Valor = 8, Tempo = 4, Complexidade = 1, Pre_Reqs = []\<rparr>)]"

definition counterexample_optimizer :: optimizer where
  "counterexample_optimizer =
     \<lparr>opt_skills_db = counterexample_db, basic_skills = [''A'', ''B'', ''C''], min_adapt = 16\<rparr>"

subsection \<open>Notions used to state the properties of the subset optimizer\<close>

text \<open>
  A field of a skill by identifier (0 for an identifier the database lacks, which the
  proofs exclude by \<open>known\<close>), its sum over a multiset of identifiers, and the
  invariant of the DP table after the candidates \<open>pre\<close>: every entry is a selection
  from \<open>pre\<close> with its value and time, and every selection from \<open>pre\<close> is matched
  by an entry at its value that takes no more time.
\<close>

definition fld :: "skills_db \<Rightarrow> (skill \<Rightarrow> int) \<Rightarrow> string \<Rightarrow> int" where
  "fld db f s = (case map_of db s of None \<Rightarrow> 0 | Some r \<Rightarrow> f r)"

definition known :: "skills_db \<Rightarrow> string list \<Rightarrow> bool" where
  "known db xs = (\<forall>s \<in> set xs. map_of db s \<noteq> None)"

definition covers :: "value_table \<Rightarrow> int \<Rightarrow> int \<Rightarrow> bool" where
  "covers tbl v t = (\<exists>t' sk. (v, (t', sk)) \<in> set tbl \<and> t' \<le> t)"

definition vsum :: "skills_db \<Rightarrow> (skill \<Rightarrow> int) \<Rightarrow> string multiset \<Rightarrow> int" where
  "vsum db f M = sum_mset (image_mset (fld db f) M)"

definition dp_inv :: "skills_db \<Rightarrow> string list \<Rightarrow> value_table \<Rightarrow> bool" where
  "dp_inv db pre tbl =
     ((\<forall>v t sk. (v, (t, sk)) \<in> set tbl \<longrightarrow>
          subseq sk pre \<and> vsum db Valor (mset sk) = v \<and> vsum db Tempo (mset sk) = t)
      \<and> (\<forall>M. M \<subseteq># mset pre \<longrightarrow> covers tbl (vsum db Valor M) (vsum db Tempo M)))"

section \<open>ImprovedMaxValuePathDP (gs\_challenge1.py)\<close>

text \<open>
  The solver object. \<open>max_states_per_cell\<close> is a Python int (default 50);
  \<open>required_skills\<close>, \<open>min_feasible_time\<close> and \<open>min_feasible_complexity\<close> are computed
  by the constructor.
\<close>

record solver =
  sv_skills_db :: skills_db
  target :: string
  max_states_per_cell :: int
  required_skills :: "string list"
  min_feasible_time :: int
  min_feasible_complexity :: int

subsection \<open>\_get\_required\_skills\<close>

text \<open>
  The worklist loop. \<open>required\<close> is a Python set; it is kept here as the list of its
  elements in insertion order. \<open>to_process.pop()\<close> takes the last element.
\<close>

function get_required_loop :: "skills_db \<Rightarrow> string list \<Rightarrow> string list \<Rightarrow> error + string list" where
  "get_required_loop db required to_process =
     (if to_process = [] then Inr required
      else let skill = last to_process; rest = butlast to_process in
        if skill \<in> set required then get_required_loop db required rest
        else (case getitem db skill of
                Inl e \<Rightarrow> Inl e
              | Inr r \<Rightarrow> get_required_loop db (required @ [skill]) (rest @ Pre_Reqs r)))"
  by pat_completeness auto
termination
proof (relation "measures [\<lambda>(db, required, to_process). card (fst ` set db - set required),
                           \<lambda>(db, required, to_process). length to_process]")
  show "wf (measures [\<lambda>(db, required, to_process). card (fst ` set db - set required),
                      \<lambda>(db, required, to_process). length to_process])"
    by simp
next
  fix db :: skills_db and required to_process :: "string list" and x xa
  assume "to_process \<noteq> []" "x = last to_process" "xa = butlast to_process" "x \<in> set required"
  then show "((db, required, xa), (db, required, to_process))
      \<in> measures [\<lambda>(db, required, to_process). card (fst ` set db - set required),
                   \<lambda>(db, required, to_process). length to_process]"
    by simp
next
  fix db :: skills_db and required to_process :: "string list" and x xa and r :: skill
  assume a: "x \<notin> set required" "getitem db x = Inr r"
  from a(2) have "map_of db x \<noteq> None" by (auto simp: getitem_def split: option.splits)
  then have "x \<in> fst ` set db" by (metis map_of_eq_None_iff)
  with a(1) have "fst ` set db - set (required @ [x]) \<subset> fst ` set db - set required"
    by auto
  then have "card (fst ` set db - set (required @ [x])) < card (fst ` set db - set required)"
    by (intro psubset_card_mono) auto
  then show "((db, required @ [x], xa @ Pre_Reqs r), (db, required, to_process))
      \<in> measures [\<lambda>(db, required, to_process). card (fst ` set db - set required),
                   \<lambda>(db, required, to_process). length to_process]"
    by simp
qed

declare get_required_loop.simps [simp del]

text \<open>
  \<open>list(required)\<close> enumerates a set of strings in an order the language does not fix
  (it depends on the hash seed). The enumeration is the parameter \<open>iter\<close>: a function
  that permutes the insertion-order list.
\<close>

definition get_required_skills ::
  "(string list \<Rightarrow> string list) \<Rightarrow> skills_db \<Rightarrow> string \<Rightarrow> error + string list" where
  "get_required_skills iter db tgt =
     (case get_required_loop db [] [tgt] of Inl e \<Rightarrow> Inl e | Inr required \<Rightarrow> Inr (iter required))"

subsection \<open>\_topological\_sort\<close>

text \<open>
  \<open>in_degree\<close> is a dict whose key set is \<open>required_skills\<close> throughout; it is modelled
  as a total function, and \<open>prereq in in_degree\<close> as membership in \<open>required_skills\<close>.
\<close>

fun count_in_degree ::
  "skills_db \<Rightarrow> string list \<Rightarrow> string list \<Rightarrow> (string \<Rightarrow> int) \<Rightarrow> error + (string \<Rightarrow> int)" where
  "count_in_degree db rs [] in_degree = Inr in_degree"
| "count_in_degree db rs (skill # rest) in_degree =
     (case getitem db skill of
        Inl e \<Rightarrow> Inl e
      | Inr r \<Rightarrow>
          count_in_degree db rs rest
            (fold (\<lambda>prereq d. if prereq \<in> set rs then d(skill := d skill + 1) else d)
               (Pre_Reqs r) in_degree))"

text \<open>The inner \<open>for skill in self.required_skills\<close> of the main loop.\<close>

fun release_dependents ::
  "skills_db \<Rightarrow> string \<Rightarrow> string list \<Rightarrow> (string \<Rightarrow> int) \<times> string list
     \<Rightarrow> error + ((string \<Rightarrow> int) \<times> string list)" where
  "release_dependents db current [] st = Inr st"
| "release_dependents db current (skill # rest) st =
     (case getitem db skill of
        Inl e \<Rightarrow> Inl e
      | Inr r \<Rightarrow>
          if current \<in> set (Pre_Reqs r)
          then let in_degree = (fst st)(skill := fst st skill - 1) in
               release_dependents db current rest
                 (in_degree, if in_degree skill = 0 then snd st @ [skill] else snd st)
          else release_dependents db current rest st)"

function kahn_loop ::
  "skills_db \<Rightarrow> string list \<Rightarrow> (string \<Rightarrow> int) \<Rightarrow> string list \<Rightarrow> string list
     \<Rightarrow> error + string list" where
  "kahn_loop db rs in_degree [] result = Inr result"
| "kahn_loop db rs in_degree (current # queue) result =
     (case release_dependents db current rs (in_degree, queue) of
        Inl e \<Rightarrow> Inl e
      | Inr st \<Rightarrow> kahn_loop db rs (fst st) (snd st) (result @ [current]))"
  by pat_completeness auto
termination
proof (relation "measure (\<lambda>(db, rs, in_degree, queue, result).
                    length queue + card {s \<in> set rs. 0 < in_degree s})")
  show "wf (measure (\<lambda>(db, rs, in_degree, queue, result).
                    length queue + card {s \<in> set rs. 0 < in_degree s}))"
    by simp
next
  fix db :: skills_db and rs :: "string list" and in_degree :: "string \<Rightarrow> int"
    and current :: string and queue result :: "string list" and st
  assume rel: "release_dependents db current rs (in_degree, queue) = Inr st"
  have step: "length (snd st') + card {s \<in> set rs. 0 < fst st' s}
                \<le> length (snd st0) + card {s \<in> set rs. 0 < fst st0 s}"
    if "release_dependents db current ss st0 = Inr st'" "set ss \<subseteq> set rs"
    for ss st0 st'
    using that
  proof (induction ss arbitrary: st0)
    case Nil
    then show ?case by simp
  next
    case (Cons skill rest)
    from Cons.prems(1) obtain r where r: "getitem db skill = Inr r"
      by (auto split: sum.splits)
    from Cons.prems(2) have mem: "skill \<in> set rs" and sub: "set rest \<subseteq> set rs" by auto
    show ?case
    proof (cases "current \<in> set (Pre_Reqs r)")
      case False
      with Cons.prems(1) r have "release_dependents db current rest st0 = Inr st'" by simp
      from Cons.IH[OF this sub] show ?thesis .
    next
      case True
      define d where "d = (fst st0)(skill := fst st0 skill - 1)"
      define q where "q = (if d skill = 0 then snd st0 @ [skill] else snd st0)"
      from Cons.prems(1) r True have "release_dependents db current rest (d, q) = Inr st'"
        by (simp add: d_def q_def Let_def)
      from Cons.IH[OF this sub]
      have le: "length (snd st') + card {s \<in> set rs. 0 < fst st' s}
                  \<le> length q + card {s \<in> set rs. 0 < d s}" by simp
      have fin: "finite {s \<in> set rs. 0 < fst st0 s}" by simp
      have "length q + card {s \<in> set rs. 0 < d s}
              \<le> length (snd st0) + card {s \<in> set rs. 0 < fst st0 s}"
      proof (cases "d skill = 0")
        case True
        then have pos: "0 < fst st0 skill" by (simp add: d_def)
        have "{s \<in> set rs. 0 < d s} \<subseteq> {s \<in> set rs. 0 < fst st0 s} - {skill}"
          using True by (auto simp: d_def split: if_splits)
        then have "card {s \<in> set rs. 0 < d s} \<le> card ({s \<in> set rs. 0 < fst st0 s} - {skill})"
          by (intro card_mono) auto
        also have "\<dots> < card {s \<in> set rs. 0 < fst st0 s}"
          using mem pos by (intro card_Diff1_less fin) simp
        finally show ?thesis using True by (simp add: q_def)
      next
        case False
        have "{s \<in> set rs. 0 < d s} \<subseteq> {s \<in> set rs. 0 < fst st0 s}"
          by (auto simp: d_def split: if_splits)
        then have "card {s \<in> set rs. 0 < d s} \<le> card {s \<in> set rs. 0 < fst st0 s}"
          by (intro card_mono fin)
        then show ?thesis using False by (simp add: q_def)
      qed
      with le show ?thesis by linarith
    qed
  qed
  from step[OF rel] show "((db, rs, fst st, snd st, result @ [current]),
          (db, rs, in_degree, current # queue, result))
      \<in> measure (\<lambda>(db, rs, in_degree, queue, result).
                    length queue + card {s \<in> set rs. 0 < in_degree s})"
    by simp
qed

definition topological_sort :: "solver \<Rightarrow> error + string list" where
  "topological_sort sv =
     (let db = sv_skills_db sv; rs = required_skills sv in
      case count_in_degree db rs rs (\<lambda>skill. 0) of
        Inl e \<Rightarrow> Inl e
      | Inr in_degree \<Rightarrow> kahn_loop db rs in_degree (filter (\<lambda>s. in_degree s = 0) rs) [])"

subsection \<open>\_calculate\_minimum\_path\<close>

fun minimum_path_loop ::
  "skills_db \<Rightarrow> string list \<Rightarrow> string set \<Rightarrow> int \<Rightarrow> int \<Rightarrow> error + (int \<times> int)" where
  "minimum_path_loop db [] acquired total_t total_c = Inr (total_t, total_c)"
| "minimum_path_loop db (skill_id # rest) acquired total_t total_c =
     (if skill_id \<notin> acquired
      then (case getitem db skill_id of
              Inl e \<Rightarrow> Inl e
            | Inr r \<Rightarrow>
                minimum_path_loop db rest (insert skill_id acquired)
                  (total_t + Tempo r) (total_c + Complexidade r))
      else minimum_path_loop db rest acquired total_t total_c)"

definition calculate_minimum_path :: "solver \<Rightarrow> error + (int \<times> int)" where
  "calculate_minimum_path sv =
     (case topological_sort sv of
        Inl e \<Rightarrow> Inl e
      | Inr topo_order \<Rightarrow> minimum_path_loop (sv_skills_db sv) topo_order {} 0 0)"

subsection \<open>The constructor\<close>

definition init_solver ::
  "(string list \<Rightarrow> string list) \<Rightarrow> skills_db \<Rightarrow> string \<Rightarrow> int \<Rightarrow> error + solver" where
  "init_solver iter db tgt cap =
     (case get_required_skills iter db tgt of
        Inl e \<Rightarrow> Inl e
      | Inr rs \<Rightarrow>
          let sv = \<lparr>sv_skills_db = db, target = tgt, max_states_per_cell = cap,
                    required_skills = rs, min_feasible_time = 0, min_feasible_complexity = 0\<rparr>
          in (case calculate_minimum_path sv of
                Inl e \<Rightarrow> Inl e
              | Inr m \<Rightarrow>
                  Inr (sv\<lparr>min_feasible_time := fst m, min_feasible_complexity := snd m\<rparr>)))"

subsection \<open>\_prune\_dominated\_states\<close>

text \<open>One DP state: the dict \<open>{'valor', 'skills', 'path'}\<close>; \<open>skills\<close> is a frozenset.\<close>

record dp_state =
  valor :: int
  skills :: "string set"
  path :: "string list"

text \<open>\<open>xs[:n]\<close> for a Python int \<open>n\<close>: a negative \<open>n\<close> counts from the end.\<close>

definition slice_to :: "int \<Rightarrow> 'a list \<Rightarrow> 'a list" where
  "slice_to n xs = (if 0 \<le> n then take (nat n) xs else take (length xs - nat (- n)) xs)"

text \<open>\<open>states.sort(key=valor, reverse=True)\<close> is stable.\<close>

definition prune_dominated_states :: "solver \<Rightarrow> dp_state list \<Rightarrow> dp_state list" where
  "prune_dominated_states sv states =
     (if int (length states) \<le> max_states_per_cell sv then states
      else slice_to (max_states_per_cell sv) (sort_key (\<lambda>x. - valor x) states))"

subsection \<open>solve\_deterministic\<close>

text \<open>
  \<open>dp\<close> is a \<open>defaultdict(list)\<close> from \<open>(t, c)\<close> to a list of states, in insertion
  order. \<open>dd_append\<close> is \<open>new_dp[key].append(state)\<close>.
\<close>

type_synonym dp_table = "((int \<times> int) \<times> dp_state list) list"

fun dd_append :: "int \<times> int \<Rightarrow> dp_state \<Rightarrow> dp_table \<Rightarrow> dp_table" where
  "dd_append k s [] = [(k, [s])]"
| "dd_append k s ((k', ss) # rest) =
     (if k = k' then (k', ss @ [s]) # rest else (k', ss) # dd_append k s rest)"

text \<open>The body of the loop over the states of one cell.\<close>

definition transition ::
  "string \<Rightarrow> skill \<Rightarrow> int \<Rightarrow> int \<Rightarrow> int \<times> int \<Rightarrow> dp_state \<Rightarrow> dp_table \<Rightarrow> dp_table" where
  "transition skill_id r max_time max_complexity key state new_dp =
     (let prereqs_satisfied = list_all (\<lambda>p. p \<in> skills state) (Pre_Reqs r) in
      if \<not> prereqs_satisfied \<or> skill_id \<in> skills state then new_dp
      else let new_t = fst key + Tempo r; new_c = snd key + Complexidade r in
        if new_t \<le> max_time \<and> new_c \<le> max_complexity
        then dd_append (new_t, new_c)
               \<lparr>valor = valor state + Valor r, skills = skills state \<union> {skill_id},
                path = path state @ [skill_id]\<rparr> new_dp
        else new_dp)"

text \<open>One iteration of the loop over \<open>topo_order\<close>: copy, add transitions, prune.\<close>

definition dp_step ::
  "solver \<Rightarrow> int \<Rightarrow> int \<Rightarrow> string \<Rightarrow> skill \<Rightarrow> dp_table \<Rightarrow> dp_table" where
  "dp_step sv max_time max_complexity skill_id r dp =
     (let new_dp =
        fold (\<lambda>cell nd. fold (transition skill_id r max_time max_complexity (fst cell)) (snd cell) nd)
          dp dp
      in map (\<lambda>cell. (fst cell, prune_dominated_states sv (snd cell))) new_dp)"

fun dp_loop :: "solver \<Rightarrow> int \<Rightarrow> int \<Rightarrow> string list \<Rightarrow> dp_table \<Rightarrow> error + dp_table" where
  "dp_loop sv max_time max_complexity [] dp = Inr dp"
| "dp_loop sv max_time max_complexity (skill_id # rest) dp =
     (case getitem (sv_skills_db sv) skill_id of
        Inl e \<Rightarrow> Inl e
      | Inr r \<Rightarrow> dp_loop sv max_time max_complexity rest (dp_step sv max_time max_complexity skill_id r dp))"

text \<open>The final scan: \<open>(best_value, best_solution)\<close>, starting from \<open>(-1, None)\<close>.\<close>

definition pick_best :: "string \<Rightarrow> dp_state \<Rightarrow> int \<times> dp_state option \<Rightarrow> int \<times> dp_state option" where
  "pick_best tgt state best =
     (if tgt \<in> skills state \<and> valor state > fst best then (valor state, Some state) else best)"

text \<open>Python's \<open>str\<close> of an int, for the f-strings.\<close>

fun digits :: "nat \<Rightarrow> string" where
  "digits n =
     (if n < 10 then [''0123456789'' ! n] else digits (n div 10) @ [''0123456789'' ! (n mod 10)])"

declare digits.simps [simp del]

definition str_int :: "int \<Rightarrow> string" where
  "str_int i = (if i < 0 then CHR ''-'' # digits (nat (- i)) else digits (nat i))"

text \<open>
  The result dicts. \<open>PathFound\<close> is \<open>{'success': True, 'path', 'total_value', 'total_time',
  'total_complexity'}\<close>; \<open>Infeasible\<close> is \<open>{'success': False, 'message'}\<close>.
\<close>

datatype path_result =
  PathFound (res_path: "string list") (res_total_value: int) (res_total_time: int)
    (res_total_complexity: int)
| Infeasible (res_message: string)

fun success :: "path_result \<Rightarrow> bool" where
  "success (PathFound p v t c) = True"
| "success (Infeasible m) = False"

text \<open>
  \<open>f'Impossivel atingir {target} com T<={max_time}, C<={max_complexity}'\<close>, with the
  accented i and the less-or-equal sign of the source in UTF-8.
\<close>

definition infeasible_message :: "string \<Rightarrow> int \<Rightarrow> int \<Rightarrow> string" where
  "infeasible_message tgt max_time max_complexity =
     ''Imposs'' @ [CHR 0xC3, CHR 0xAD] @ ''vel atingir '' @ tgt @ '' com T''
       @ [CHR 0xE2, CHR 0x89, CHR 0xA4] @ str_int max_time @ '', C''
       @ [CHR 0xE2, CHR 0x89, CHR 0xA4] @ str_int max_complexity"

definition solve_deterministic :: "solver \<Rightarrow> int \<Rightarrow> int \<Rightarrow> error + path_result" where
  "solve_deterministic sv max_time max_complexity =
     (case topological_sort sv of
        Inl e \<Rightarrow> Inl e
      | Inr topo_order \<Rightarrow>
          (case dp_loop sv max_time max_complexity topo_order
                  [((0, 0), [\<lparr>valor = 0, skills = {}, path = []\<rparr>])] of
             Inl e \<Rightarrow> Inl e
           | Inr dp \<Rightarrow>
               (case snd (fold (pick_best (target sv)) (concat (map snd dp)) (- 1, None)) of
                  None \<Rightarrow> Inr (Infeasible (infeasible_message (target sv) max_time max_complexity))
                | Some best_solution \<Rightarrow>
                    (case sum_field (sv_skills_db sv) Tempo (path best_solution) of
                       Inl e \<Rightarrow> Inl e
                     | Inr tt \<Rightarrow>
                         (case sum_field (sv_skills_db sv) Complexidade (path best_solution) of
                            Inl e \<Rightarrow> Inl e
                          | Inr tc \<Rightarrow>
                              Inr (PathFound (path best_solution) (valor best_solution) tt tc))))))"

subsection \<open>check\_feasibility\<close>

definition feasible_message :: string where
  "feasible_message = ''Restri'' @ [CHR 0xC3, CHR 0xA7, CHR 0xC3, CHR 0xB5] @ ''es vi''
     @ [CHR 0xC3, CHR 0xA1] @ ''veis''"

definition too_strict_message :: "int \<Rightarrow> int \<Rightarrow> string" where
  "too_strict_message min_t min_c =
     ''Restri'' @ [CHR 0xC3, CHR 0xA7, CHR 0xC3, CHR 0xB5] @ ''es muito r''
       @ [CHR 0xC3, CHR 0xAD] @ ''gidas! M'' @ [CHR 0xC3, CHR 0xAD] @ ''nimo necess''
       @ [CHR 0xC3, CHR 0xA1] @ ''rio: T'' @ [CHR 0xE2, CHR 0x89, CHR 0xA5] @ str_int min_t
       @ '', C'' @ [CHR 0xE2, CHR 0x89, CHR 0xA5] @ str_int min_c"

definition check_feasibility :: "solver \<Rightarrow> int \<Rightarrow> int \<Rightarrow> bool \<times> string" where
  "check_feasibility sv max_time max_complexity =
     (if min_feasible_time sv \<le> max_time \<and> min_feasible_complexity sv \<le> max_complexity
      then (True, feasible_message)
      else (False, too_strict_message (min_feasible_time sv) (min_feasible_complexity sv)))"

subsection \<open>solve\_with\_uncertainty\<close>

text \<open>
  \<open>np.random\<close> is a library outside the repository. Its global generator is taken as
  a parameter: a type \<open>'g\<close> of generator states, the state \<open>np.random.seed(n)\<close>
  installs, and \<open>np.random.uniform(low, high)\<close> as a function from the current state
  to the draw and the next state. The global state is threaded through explicitly.
  Floats are idealised as reals.
\<close>

record 'g np_random =
  seed_state :: "int \<Rightarrow> 'g"
  draw_uniform :: "real \<Rightarrow> real \<Rightarrow> 'g \<Rightarrow> real \<times> 'g"

definition GLOBAL_SEED :: int where
  "GLOBAL_SEED = 42"

text \<open>The inner loop: one simulated total over the path.\<close>

fun simulate_path ::
  "'g np_random \<Rightarrow> skills_db \<Rightarrow> string list \<Rightarrow> real \<Rightarrow> 'g \<Rightarrow> error + (real \<times> 'g)" where
  "simulate_path np db [] total_value0 g = Inr (total_value0, g)"
| "simulate_path np db (skill_id # rest) total_value0 g =
     (case getitem db skill_id of
        Inl e \<Rightarrow> Inl e
      | Inr r \<Rightarrow>
          let d = draw_uniform np (9 / 10) (11 / 10) g;
              simulated_value = of_int (Valor r) * fst d
          in simulate_path np db rest (total_value0 + simulated_value) (snd d))"

text \<open>The outer loop over \<open>range(n_simulations)\<close>.\<close>

fun simulate_runs ::
  "'g np_random \<Rightarrow> skills_db \<Rightarrow> string list \<Rightarrow> nat \<Rightarrow> real list \<Rightarrow> 'g
     \<Rightarrow> error + (real list \<times> 'g)" where
  "simulate_runs np db p 0 simulated_values g = Inr (simulated_values, g)"
| "simulate_runs np db p (Suc n) simulated_values g =
     (case simulate_path np db p 0 g of
        Inl e \<Rightarrow> Inl e
      | Inr tv \<Rightarrow> simulate_runs np db p n (simulated_values @ [fst tv]) (snd tv))"

text \<open>\<open>np.mean\<close> and \<open>np.std\<close> (population standard deviation) of a non-empty list.\<close>

definition np_mean :: "real list \<Rightarrow> real" where
  "np_mean xs = sum_list xs / real (length xs)"

definition np_std :: "real list \<Rightarrow> real" where
  "np_std xs = sqrt (sum_list (map (\<lambda>x. (x - np_mean xs)\<^sup>2) xs) / real (length xs))"

record uncertainty_result =
  mc_path :: "string list"
  deterministic_value :: int
  expected_value :: real
  std_value :: real
  min_value :: real
  max_value :: real
  simulations :: "real list"
  mc_total_time :: int
  mc_total_complexity :: int

text \<open>
  The method returns the deterministic result unchanged when that is not a success, and
  the statistics otherwise. \<open>np.min\<close> of an empty sample raises \<open>ValueError\<close>.
\<close>

datatype uncertainty_outcome = Simulated uncertainty_result | NotSolved path_result

definition solve_with_uncertainty ::
  "'g np_random \<Rightarrow> solver \<Rightarrow> int \<Rightarrow> int \<Rightarrow> int \<Rightarrow> 'g \<Rightarrow> error + (uncertainty_outcome \<times> 'g)" where
  "solve_with_uncertainty np sv max_time max_complexity n_simulations g =
     (case solve_deterministic sv max_time max_complexity of
        Inl e \<Rightarrow> Inl e
      | Inr (Infeasible m) \<Rightarrow> Inr (NotSolved (Infeasible m), g)
      | Inr (PathFound p v t c) \<Rightarrow>
          (case simulate_runs np (sv_skills_db sv) p (nat n_simulations) []
                  (seed_state np GLOBAL_SEED) of
             Inl e \<Rightarrow> Inl e
           | Inr sg \<Rightarrow>
               if fst sg = [] then Inl (ValueError ''zero-size array to reduction operation'')
               else Inr (Simulated
                      \<lparr>mc_path = p, deterministic_value = v,
                       expected_value = np_mean (fst sg), std_value = np_std (fst sg),
                       min_value = Min (set (fst sg)), max_value = Max (set (fst sg)),
                       simulations = fst sg, mc_total_time = t, mc_total_complexity = c\<rparr>,
                     snd sg)))"

subsection \<open>Notions used to state the properties of the path solver\<close>

text \<open>The prerequisite relation of a database: \<open>(s, p)\<close> when \<open>p\<close> is listed for \<open>s\<close>.\<close>

definition prereq_rel :: "skills_db \<Rightarrow> (string \<times> string) set" where
  "prereq_rel db = {(s, p). \<exists>r. map_of db s = Some r \<and> p \<in> set (Pre_Reqs r)}"

text \<open>
  A path is a linearization when every skill on it is in the database and all its
  prerequisites occur among \<open>seen\<close> or earlier on the path.
\<close>

fun prereqs_before :: "skills_db \<Rightarrow> string set \<Rightarrow> string list \<Rightarrow> bool" where
  "prereqs_before db seen [] = True"
| "prereqs_before db seen (s # rest) =
     (case map_of db s of
        None \<Rightarrow> False
      | Some r \<Rightarrow> set (Pre_Reqs r) \<subseteq> seen \<and> prereqs_before db (insert s seen) rest)"

text \<open>The pairs \<open>(key, state)\<close> stored in a table.\<close>

definition cells :: "dp_table \<Rightarrow> ((int \<times> int) \<times> dp_state) set" where
  "cells dp = {(k, st). \<exists>ss. (k, ss) \<in> set dp \<and> st \<in> set ss}"

definition state_inv ::
  "skills_db \<Rightarrow> string list \<Rightarrow> int \<Rightarrow> int \<Rightarrow> (int \<times> int) \<times> dp_state \<Rightarrow> bool" where
  "state_inv db seen max_time max_complexity c =
     (case c of (key, st) \<Rightarrow>
        skills st = set (path st) \<and> distinct (path st) \<and> set (path st) \<subseteq> set seen
        \<and> fst key = sum_list (map (fld db Tempo) (path st))
        \<and> snd key = sum_list (map (fld db Complexidade) (path st))
        \<and> (path st = [] \<or> (fst key \<le> max_time \<and> snd key \<le> max_complexity))
        \<and> prereqs_before db {} (path st))"

text \<open>When a transition from a cell is taken, and the cell it produces.\<close>

definition admits :: "string \<Rightarrow> skill \<Rightarrow> int \<Rightarrow> int \<Rightarrow> (int \<times> int) \<times> dp_state \<Rightarrow> bool" where
  "admits skill_id r mt mc c =
     (list_all (\<lambda>p. p \<in> skills (snd c)) (Pre_Reqs r) \<and> skill_id \<notin> skills (snd c)
      \<and> fst (fst c) + Tempo r \<le> mt \<and> snd (fst c) + Complexidade r \<le> mc)"

definition step_cell :: "string \<Rightarrow> skill \<Rightarrow> (int \<times> int) \<times> dp_state \<Rightarrow> (int \<times> int) \<times> dp_state" where
  "step_cell skill_id r c =
     ((fst (fst c) + Tempo r, snd (fst c) + Complexidade r),
      \<lparr>valor = valor (snd c) + Valor r, skills = skills (snd c) \<union> {skill_id},
       path = path (snd c) @ [skill_id]\<rparr>)"

subsection \<open>Small databases for concrete runs of the path solver\<close>

definition example_db :: skills_db where
  "example_db =
     [(''H1'', \<lparr>Valor = 10, Tempo = 40, Complexidade = 2, Pre_Reqs = []\<rparr>),
      (''H2'', \<lparr>Valor = 12, Tempo = 50, Complexidade = 3, Pre_Reqs = []\<rparr>),
      (''S1'', \<lparr>Valor = 18, Tempo = 70, Complexidade = 5, Pre_Reqs = [''H1'', ''H2'']\<rparr>)]"

definition example_solver :: solver where
  "example_solver =
     \<lparr>sv_skills_db = example_db, target = ''S1'', max_states_per_cell = 50,
      required_skills = [''S1'', ''H2'', ''H1''], min_feasible_time = 160,
      min_feasible_complexity = 10\<rparr>"

definition single_db :: "int \<Rightarrow> skills_db" where
  "single_db t = [(''T'', \<lparr>Valor = 1, Tempo = t, Complexidade = 1, Pre_Reqs = []\<rparr>)]"

definition single_solver :: "int \<Rightarrow> solver" where
  "single_solver t =
     \<lparr>sv_skills_db = single_db t, target = ''T'', max_states_per_cell = 50,
      required_skills = [''T''], min_feasible_time = t, min_feasible_complexity = 1\<rparr>"

section \<open>GraphValidator (gs\_graph\_validation.py)\<close>

text \<open>
  \<open>all_skill_ids\<close> is \<open>set(skills_db.keys())\<close>. Where the code iterates over that
  set, the order is the parameter \<open>iter\<close> applied to the list of keys, as for the
  required skills of the path solver.
\<close>

record report =
  valid :: bool
  cycles :: "string list"
  orphan_nodes :: "(string \<times> string) list"
  missing_prereqs :: "string list"
  topological_order :: "string list"

subsection \<open>\_check\_orphan\_prereqs\<close>

definition check_orphan_prereqs :: "skills_db \<Rightarrow> (string \<times> string) list" where
  "check_orphan_prereqs db =
     concat (map (\<lambda>item. map (\<lambda>prereq. (fst item, prereq))
                          (filter (\<lambda>prereq. prereq \<notin> set (map fst db)) (Pre_Reqs (snd item))))
              db)"

subsection \<open>\_detect\_cycles\<close>

datatype color = WHITE | GRAY | BLACK

text \<open>
  The two dicts of the search. A key of \<open>parent\<close> maps to \<open>None\<close> (Python's) or to a
  skill: \<open>Some None\<close> and \<open>Some (Some p)\<close>; an absent key is \<open>None\<close>.
\<close>

record dfs_state =
  color_of :: "string \<rightharpoonup> color"
  parent_of :: "string \<rightharpoonup> string option"

text \<open>
  The \<open>while\<close> loop that walks the parent links back from \<open>node\<close>, inserting at
  index 1. An empty string is falsy, like \<open>None\<close>. The result is \<open>None\<close> when the
  loop does not exit.
\<close>

partial_function (option) close_cycle ::
  "(string \<rightharpoonup> string option) \<Rightarrow> string \<Rightarrow> string \<Rightarrow> string list \<Rightarrow> (error + string list) option" where
  "close_cycle parent prereq current cycle =
     (case parent current of
        None \<Rightarrow> Some (Inl (KeyError current))
      | Some None \<Rightarrow> Some (Inr cycle)
      | Some (Some p) \<Rightarrow>
          if p = [] \<or> p = prereq then Some (Inr cycle)
          else close_cycle parent prereq p (hd cycle # p # tl cycle))"

text \<open>
  \<open>dfs_visit\<close> and the loop over the prerequisites of its node. The first argument
  is the number of nested calls the interpreter still allows; Python raises
  \<open>RecursionError\<close> beyond its recursion limit.
\<close>

fun dfs_visit ::
    "skills_db \<Rightarrow> nat \<Rightarrow> string \<Rightarrow> dfs_state \<Rightarrow> error + ((bool \<times> string list) \<times> dfs_state)"
  and dfs_prereqs ::
    "skills_db \<Rightarrow> nat \<Rightarrow> string \<Rightarrow> string list \<Rightarrow> dfs_state
       \<Rightarrow> error + ((bool \<times> string list) \<times> dfs_state)" where
  "dfs_visit db 0 node st = Inl RecursionError"
| "dfs_visit db (Suc depth) node st =
     (let st1 = st\<lparr>color_of := (color_of st)(node \<mapsto> GRAY)\<rparr> in
      case getitem db node of
        Inl e \<Rightarrow> Inl e
      | Inr r \<Rightarrow>
          (case dfs_prereqs db depth node (Pre_Reqs r) st1 of
             Inl e \<Rightarrow> Inl e
           | Inr res \<Rightarrow>
               if fst (fst res) then Inr res
               else Inr ((False, []),
                         (snd res)\<lparr>color_of := (color_of (snd res))(node \<mapsto> BLACK)\<rparr>)))"
| "dfs_prereqs db depth node [] st = Inr ((False, []), st)"
| "dfs_prereqs db depth node (prereq # rest) st =
     (case color_of st prereq of
        None \<Rightarrow> Inl (KeyError prereq)
      | Some GRAY \<Rightarrow>
          (case close_cycle (parent_of st) prereq node [prereq, node] of
             None \<Rightarrow> Inl NonTermination
           | Some (Inl e) \<Rightarrow> Inl e
           | Some (Inr cycle) \<Rightarrow> Inr ((True, cycle @ [prereq]), st))
      | Some WHITE \<Rightarrow>
          (case dfs_visit db depth prereq (st\<lparr>parent_of := (parent_of st)(prereq \<mapsto> Some node)\<rparr>) of
             Inl e \<Rightarrow> Inl e
           | Inr res \<Rightarrow>
               if fst (fst res) then Inr res else dfs_prereqs db depth node rest (snd res))
      | Some BLACK \<Rightarrow> dfs_prereqs db depth node rest st)"

text \<open>The outer loop \<open>for skill in self.all_skill_ids\<close>.\<close>

fun dfs_all ::
  "skills_db \<Rightarrow> nat \<Rightarrow> string list \<Rightarrow> dfs_state \<Rightarrow> error + (bool \<times> string list)" where
  "dfs_all db limit [] st = Inr (False, [])"
| "dfs_all db limit (skill # rest) st =
     (case color_of st skill of
        None \<Rightarrow> Inl (KeyError skill)
      | Some WHITE \<Rightarrow>
          (case dfs_visit db limit skill st of
             Inl e \<Rightarrow> Inl e
           | Inr res \<Rightarrow> if fst (fst res) then Inr (fst res) else dfs_all db limit rest (snd res))
      | Some c \<Rightarrow> dfs_all db limit rest st)"

definition detect_cycles ::
  "(string list \<Rightarrow> string list) \<Rightarrow> nat \<Rightarrow> skills_db \<Rightarrow> error + (bool \<times> string list)" where
  "detect_cycles iter limit db =
     (let ids = iter (map fst db) in
      dfs_all db limit ids
        \<lparr>color_of = map_of (map (\<lambda>skill. (skill, WHITE)) ids),
         parent_of = map_of (map (\<lambda>skill. (skill, None)) ids)\<rparr>)"

subsection \<open>\_topological\_sort of the validator\<close>

text \<open>The inner loop over \<open>self.skills_db.items()\<close>; \<open>in_degree\<close> as for the path solver.\<close>

fun release_items ::
  "string \<Rightarrow> skills_db \<Rightarrow> (string \<Rightarrow> int) \<times> string list \<Rightarrow> (string \<Rightarrow> int) \<times> string list" where
  "release_items current [] st = st"
| "release_items current (item # rest) st =
     (if current \<in> set (Pre_Reqs (snd item))
      then let in_degree = (fst st)(fst item := fst st (fst item) - 1) in
           release_items current rest
             (in_degree, if in_degree (fst item) = 0 then snd st @ [fst item] else snd st)
      else release_items current rest st)"

function validator_loop ::
  "skills_db \<Rightarrow> (string \<Rightarrow> int) \<Rightarrow> string list \<Rightarrow> string list \<Rightarrow> string list" where
  "validator_loop db in_degree [] topo_order = topo_order"
| "validator_loop db in_degree (current # queue) topo_order =
     (let st = release_items current db (in_degree, queue) in
      validator_loop db (fst st) (snd st) (topo_order @ [current]))"
  by pat_completeness auto
termination
proof (relation "measure (\<lambda>(db, in_degree, queue, topo_order).
                    length queue + card {s \<in> fst ` set db. 0 < in_degree s})")
  show "wf (measure (\<lambda>(db, in_degree, queue, topo_order).
                    length queue + card {s \<in> fst ` set db. 0 < in_degree s}))"
    by simp
next
  fix db :: skills_db and in_degree :: "string \<Rightarrow> int" and current :: string
    and queue topo_order :: "string list" and st
  assume rel: "st = release_items current db (in_degree, queue)"
  have step: "length (snd (release_items current items st0))
                + card {s \<in> fst ` set db. 0 < fst (release_items current items st0) s}
                \<le> length (snd st0) + card {s \<in> fst ` set db. 0 < fst st0 s}"
    if "set items \<subseteq> set db" for items st0
    using that
  proof (induction items arbitrary: st0)
    case Nil
    then show ?case by simp
  next
    case (Cons item rest)
    from Cons.prems have mem: "fst item \<in> fst ` set db" and sub: "set rest \<subseteq> set db" by auto
    show ?case
    proof (cases "current \<in> set (Pre_Reqs (snd item))")
      case False
      with Cons.IH[OF sub, of st0] show ?thesis by simp
    next
      case True
      define d where "d = (fst st0)(fst item := fst st0 (fst item) - 1)"
      define q where "q = (if d (fst item) = 0 then snd st0 @ [fst item] else snd st0)"
      have unf: "release_items current (item # rest) st0 = release_items current rest (d, q)"
        using True by (simp add: d_def q_def Let_def)
      have le: "length (snd (release_items current rest (d, q)))
                  + card {s \<in> fst ` set db. 0 < fst (release_items current rest (d, q)) s}
                  \<le> length q + card {s \<in> fst ` set db. 0 < d s}"
        using Cons.IH[OF sub, of "(d, q)"] by simp
      have fin: "finite {s \<in> fst ` set db. 0 < fst st0 s}" by simp
      have "length q + card {s \<in> fst ` set db. 0 < d s}
              \<le> length (snd st0) + card {s \<in> fst ` set db. 0 < fst st0 s}"
      proof (cases "d (fst item) = 0")
        case True
        then have pos: "0 < fst st0 (fst item)" by (simp add: d_def)
        have "{s \<in> fst ` set db. 0 < d s} \<subseteq> {s \<in> fst ` set db. 0 < fst st0 s} - {fst item}"
          using True by (auto simp: d_def split: if_splits)
        then have "card {s \<in> fst ` set db. 0 < d s}
                     \<le> card ({s \<in> fst ` set db. 0 < fst st0 s} - {fst item})"
          by (intro card_mono) auto
        also have "\<dots> < card {s \<in> fst ` set db. 0 < fst st0 s}"
          using mem pos by (intro card_Diff1_less fin) simp
        finally show ?thesis using True by (simp add: q_def)
      next
        case False
        have "{s \<in> fst ` set db. 0 < d s} \<subseteq> {s \<in> fst ` set db. 0 < fst st0 s}"
          by (auto simp: d_def split: if_splits)
        then have "card {s \<in> fst ` set db. 0 < d s} \<le> card {s \<in> fst ` set db. 0 < fst st0 s}"
          by (intro card_mono fin)
        then show ?thesis using False by (simp add: q_def)
      qed
      with le show ?thesis unfolding unf by linarith
    qed
  qed
  from step[of db "(in_degree, queue)"] rel
  show "((db, fst st, snd st, topo_order @ [current]), (db, in_degree, current # queue, topo_order))
      \<in> measure (\<lambda>(db, in_degree, queue, topo_order).
                    length queue + card {s \<in> fst ` set db. 0 < in_degree s})"
    by simp
qed

definition validator_topological_sort ::
  "(string list \<Rightarrow> string list) \<Rightarrow> skills_db \<Rightarrow> string list" where
  "validator_topological_sort iter db =
     (let in_degree =
            fold (\<lambda>item d. fold (\<lambda>prereq d'. d'(fst item := d' (fst item) + 1)) (Pre_Reqs (snd item)) d)
              db (\<lambda>skill. 0)
      in validator_loop db in_degree (filter (\<lambda>skill. in_degree skill = 0) (iter (map fst db))) [])"

subsection \<open>validate\_graph\<close>

text \<open>
  \<open>_print_graph_statistics\<close> only prints, but it divides by the number of nodes and by
  \<open>n_nodes * (n_nodes - 1)\<close>, so it raises on graphs of fewer than two nodes.
\<close>

definition print_graph_statistics :: "skills_db \<Rightarrow> error + unit" where
  "print_graph_statistics db =
     (let n_nodes = int (length db) in
      if n_nodes = 0 \<or> n_nodes * (n_nodes - 1) = 0 then Inl ZeroDivisionError else Inr ())"

definition initial_report :: report where
  "initial_report =
     \<lparr>valid = True, cycles = [], orphan_nodes = [], missing_prereqs = [], topological_order = []\<rparr>"

text \<open>
  The method, with the console output left out. Both \<open>return False, report\<close>
  statements are inside the \<open>if verbose:\<close> blocks, as in the source.
\<close>

definition validate_graph ::
  "(string list \<Rightarrow> string list) \<Rightarrow> nat \<Rightarrow> skills_db \<Rightarrow> bool \<Rightarrow> error + (bool \<times> report)" where
  "validate_graph iter limit db verbose =
     (let orphans = check_orphan_prereqs db;
          report1 = (if orphans \<noteq> [] then initial_report\<lparr>valid := False, orphan_nodes := orphans\<rparr>
                     else initial_report)
      in if orphans \<noteq> [] \<and> verbose then Inr (False, report1)
         else (case detect_cycles iter limit db of
                 Inl e \<Rightarrow> Inl e
               | Inr dc \<Rightarrow>
                   let report2 = (if fst dc then report1\<lparr>valid := False, cycles := snd dc\<rparr>
                                  else report1)
                   in if fst dc \<and> verbose then Inr (False, report2)
                      else let report3 =
                                 report2\<lparr>topological_order := validator_topological_sort iter db\<rparr>
                           in if verbose
                              then (case print_graph_statistics db of
                                      Inl e \<Rightarrow> Inl e
                                    | Inr u \<Rightarrow> Inr (True, report3))
                              else Inr (True, report3)))"

subsection \<open>Graphs with a prerequisite that does not exist\<close>

definition dangling_db :: skills_db where
  "dangling_db = [(''A'', \<lparr>Valor = 1, Tempo = 1, Complexidade = 1, Pre_Reqs = [''Z'']\<rparr>)]"

definition dangling_cyclic_db :: skills_db where
  "dangling_cyclic_db =
     [(''A'', \<lparr>Valor = 1, Tempo = 1, Complexidade = 1, Pre_Reqs = [''A'', ''Z'']\<rparr>)]"

section \<open>ImprovedSkillRecommender (gs\_challenge5.py)\<close>

text \<open>
  The market model returned by \<open>_define_market_scenarios\<close>: the scenarios in dict
  order (their names and descriptions are never read), each with its probability and
  its table of value multipliers. Floats are idealised as reals.
\<close>

record scenario =
  prob :: real
  value_multiplier :: "(string \<times> real) list"

record market =
  scenarios :: "scenario list"
  horizon_years :: int
  discount_factor :: real

definition define_market_scenarios :: market where
  "define_market_scenarios =
     \<lparr>scenarios =
        [\<lparr>prob = 4 / 10,
          value_multiplier = [(''S6'', 15 / 10), (''S4'', 13 / 10), (''H11'', 12 / 10)]\<rparr>,
         \<lparr>prob = 35 / 100,
          value_multiplier = [(''S7'', 14 / 10), (''S9'', 13 / 10), (''S8'', 12 / 10)]\<rparr>,
         \<lparr>prob = 25 / 100,
          value_multiplier = [(''S5'', 16 / 10), (''H12'', 13 / 10)]\<rparr>],
      horizon_years = 5,
      discount_factor = 95 / 100\<rparr>"

record recommender =
  rc_skills_db :: skills_db
  market_scenarios :: market

definition init_recommender :: "skills_db \<Rightarrow> recommender" where
  "init_recommender db = \<lparr>rc_skills_db = db, market_scenarios = define_market_scenarios\<rparr>"

subsection \<open>\_calculate\_expected\_value\<close>

text \<open>The synergy bonus: 1.0 plus 0.05 for every listed prerequisite already held.\<close>

definition synergy_bonus :: "skill \<Rightarrow> string set \<Rightarrow> real" where
  "synergy_bonus r current_skills =
     fold (\<lambda>prereq b. if prereq \<in> current_skills then b + 5 / 100 else b) (Pre_Reqs r) 1"

text \<open>The loop over the scenarios: the expected value before the temporal discount.\<close>

definition scenario_sum :: "recommender \<Rightarrow> string \<Rightarrow> skill \<Rightarrow> string set \<Rightarrow> real" where
  "scenario_sum rc skill_id r current_skills =
     fold (\<lambda>sc acc.
             let multiplier = (case map_of (value_multiplier sc) skill_id of
                                 None \<Rightarrow> 1 | Some m \<Rightarrow> m);
                 scenario_value = of_int (Valor r) * multiplier * synergy_bonus r current_skills
             in acc + prob sc * scenario_value)
       (scenarios (market_scenarios rc)) 0"

text \<open>
  \<open>years_ahead\<close> is annotated \<open>int\<close> in the source and every caller passes an int;
  \<open>discount_factor ** years_ahead\<close> is then an integer power.
\<close>

definition calculate_expected_value ::
  "recommender \<Rightarrow> string \<Rightarrow> string set \<Rightarrow> int \<Rightarrow> error + real" where
  "calculate_expected_value rc skill_id current_skills years_ahead =
     (case getitem (rc_skills_db rc) skill_id of
        Inl e \<Rightarrow> Inl e
      | Inr r \<Rightarrow>
          let undiscounted = scenario_sum rc skill_id r current_skills;
              discount = discount_factor (market_scenarios rc) powi years_ahead
          in Inr (undiscounted * discount))"

subsection \<open>\_get\_available\_skills\<close>

text \<open>The keys are looked up in the dict they come from, so no lookup fails.\<close>

definition get_available_skills :: "recommender \<Rightarrow> string set \<Rightarrow> string list" where
  "get_available_skills rc acquired =
     map fst (filter (\<lambda>item. fst item \<notin> acquired \<and> set (Pre_Reqs (snd item)) \<subseteq> acquired)
                (rc_skills_db rc))"

subsection \<open>recommend\_with\_dp\<close>

text \<open>\<open>int(x)\<close> of a float: truncation towards zero.\<close>

definition py_int :: "real \<Rightarrow> int" where
  "py_int x = (if 0 \<le> x then \<lfloor>x\<rfloor> else \<lceil>x\<rceil>)"

text \<open>
  \<open>dp\<close>: a \<open>defaultdict\<close> from time to a dict from frozenset of skills to
  \<open>(value, path)\<close>, both in insertion order.
\<close>

type_synonym horizon_cell = "(string set \<times> (real \<times> string list)) list"
type_synonym horizon_table = "(int \<times> horizon_cell) list"

definition cell_at :: "horizon_table \<Rightarrow> int \<Rightarrow> horizon_cell" where
  "cell_at dp t = (case map_of dp t of None \<Rightarrow> [] | Some cell \<Rightarrow> cell)"

text \<open>
  The body of the innermost loop, for one state \<open>(skills_set, (current_value, path))\<close>
  of \<open>dp[t]\<close> and one available skill.
\<close>

definition dp_expand ::
  "recommender \<Rightarrow> int \<Rightarrow> int \<Rightarrow> string set \<times> (real \<times> string list) \<Rightarrow> string \<Rightarrow> horizon_table
     \<Rightarrow> error + horizon_table" where
  "dp_expand rc horizon_hours t entry skill_id dp =
     (case getitem (rc_skills_db rc) skill_id of
        Inl e \<Rightarrow> Inl e
      | Inr r \<Rightarrow>
          let new_t = t + Tempo r in
          if new_t > horizon_hours then Inr dp
          else
            let years_ahead = real_of_int new_t / 2000 in
            (case calculate_expected_value rc skill_id (fst entry) (py_int years_ahead) of
               Inl e \<Rightarrow> Inl e
             | Inr ev \<Rightarrow>
                 let new_value = fst (snd entry) + ev;
                     new_skills = fst entry \<union> {skill_id};
                     new_path = snd (snd entry) @ [skill_id]
                 in if (case map_of (cell_at dp new_t) new_skills of
                          None \<Rightarrow> True
                        | Some old \<Rightarrow> new_value > fst old)
                    then Inr (dict_set new_t
                                (dict_set new_skills (new_value, new_path) (cell_at dp new_t)) dp)
                    else Inr dp))"

fun expand_skills ::
  "recommender \<Rightarrow> int \<Rightarrow> int \<Rightarrow> string set \<times> (real \<times> string list) \<Rightarrow> string list
     \<Rightarrow> horizon_table \<Rightarrow> error + horizon_table" where
  "expand_skills rc horizon_hours t entry [] dp = Inr dp"
| "expand_skills rc horizon_hours t entry (skill_id # rest) dp =
     (case dp_expand rc horizon_hours t entry skill_id dp of
        Inl e \<Rightarrow> Inl e
      | Inr dp' \<Rightarrow> expand_skills rc horizon_hours t entry rest dp')"

text \<open>The loop over the snapshot \<open>list(dp[t].items())\<close>.\<close>

fun expand_states ::
  "recommender \<Rightarrow> int \<Rightarrow> int \<Rightarrow> horizon_cell \<Rightarrow> horizon_table \<Rightarrow> error + horizon_table" where
  "expand_states rc horizon_hours t [] dp = Inr dp"
| "expand_states rc horizon_hours t (entry # rest) dp =
     (case expand_skills rc horizon_hours t entry (get_available_skills rc (fst entry)) dp of
        Inl e \<Rightarrow> Inl e
      | Inr dp' \<Rightarrow> expand_states rc horizon_hours t rest dp')"

text \<open>The loop over \<open>range(0, horizon_hours + 1, discretization)\<close>.\<close>

fun forward_loop ::
  "recommender \<Rightarrow> int \<Rightarrow> int list \<Rightarrow> horizon_table \<Rightarrow> error + horizon_table" where
  "forward_loop rc horizon_hours [] dp = Inr dp"
| "forward_loop rc horizon_hours (t # ts) dp =
     (case map_of dp t of
        None \<Rightarrow> forward_loop rc horizon_hours ts dp
      | Some cell \<Rightarrow>
          (case expand_states rc horizon_hours t cell dp of
             Inl e \<Rightarrow> Inl e
           | Inr dp' \<Rightarrow> forward_loop rc horizon_hours ts dp'))"

text \<open>\<open>range(0, stop, step)\<close>; a zero step raises \<open>ValueError\<close>.\<close>

definition range_from_zero :: "int \<Rightarrow> int \<Rightarrow> error + int list" where
  "range_from_zero stop step =
     (if step = 0 then Inl (ValueError ''range() arg 3 must not be zero'')
      else if 0 < step
        then Inr (if 0 < stop then map (\<lambda>k. int k * step) [0 ..< nat ((stop - 1) div step + 1)]
                  else [])
        else Inr (if stop < 0 then map (\<lambda>k. int k * step) [0 ..< nat ((- stop - 1) div (- step) + 1)]
                  else []))"

text \<open>The final scan: \<open>(best_value, best_solution, best_time)\<close> from \<open>(-1, None, 0)\<close>.\<close>

definition pick_state ::
  "int \<Rightarrow> string set \<times> (real \<times> string list)
     \<Rightarrow> real \<times> (string set \<times> string list) option \<times> int
     \<Rightarrow> real \<times> (string set \<times> string list) option \<times> int" where
  "pick_state t entry best =
     (if fst (snd entry) > fst best then (fst (snd entry), Some (fst entry, snd (snd entry)), t)
      else best)"

record recommendation =
  rec_skill_id :: string
  rec_expected_value :: real
  rec_time :: int

record dp_recommendations =
  recommendations :: "recommendation list"
  optimal_path :: "string list"
  optimal_value :: real
  optimal_time :: int
  num_new_skills :: nat

fun recommend_each :: "recommender \<Rightarrow> string set \<Rightarrow> string list \<Rightarrow> error + recommendation list" where
  "recommend_each rc current_profile [] = Inr []"
| "recommend_each rc current_profile (skill_id # rest) =
     (case calculate_expected_value rc skill_id current_profile 1 of
        Inl e \<Rightarrow> Inl e
      | Inr ev \<Rightarrow>
          (case getitem (rc_skills_db rc) skill_id of
             Inl e \<Rightarrow> Inl e
           | Inr r \<Rightarrow>
               (case recommend_each rc current_profile rest of
                  Inl e \<Rightarrow> Inl e
                | Inr recs \<Rightarrow>
                    Inr (\<lparr>rec_skill_id = skill_id, rec_expected_value = ev, rec_time = Tempo r\<rparr>
                         # recs))))"

text \<open>
  The method; \<open>None\<close> is the dict with the message that no solution was found. The
  skill names of the recommendations are display data and left out.
\<close>

definition recommend_with_dp ::
  "recommender \<Rightarrow> string set \<Rightarrow> int \<Rightarrow> int \<Rightarrow> error + dp_recommendations option" where
  "recommend_with_dp rc current_profile max_time discretization =
     (let horizon_hours = min max_time (horizon_years (market_scenarios rc) * 2000) in
      case range_from_zero (horizon_hours + 1) discretization of
        Inl e \<Rightarrow> Inl e
      | Inr ts \<Rightarrow>
          (case forward_loop rc horizon_hours ts [(0, [(current_profile, (0, []))])] of
             Inl e \<Rightarrow> Inl e
           | Inr dp \<Rightarrow>
               (case fold (\<lambda>tc best. fold (pick_state (fst tc)) (snd tc) best) dp (- 1, None, 0) of
                  (best_value, None, best_time) \<Rightarrow> Inr None
                | (best_value, Some solution, best_time) \<Rightarrow>
                    let new_skills = filter (\<lambda>s. s \<notin> current_profile) (snd solution) in
                    (case recommend_each rc current_profile (take 3 new_skills) of
                       Inl e \<Rightarrow> Inl e
                     | Inr recs \<Rightarrow>
                         Inr (Some \<lparr>recommendations = recs, optimal_path = snd solution,
                                    optimal_value = best_value, optimal_time = best_time,
                                    num_new_skills = length new_skills\<rparr>)))))"

subsection \<open>A one-skill database for a concrete expansion\<close>

definition long_course_db :: skills_db where
  "long_course_db = [(''X'', \<lparr>Valor = 10, Tempo = 1000, Complexidade = 1, Pre_Reqs = []\<rparr>)]"

section \<open>Correctness of the subset optimizer\<close>

subsection \<open>Lookups that cannot fail\<close>

lemma fld_Some: "map_of db y = Some r \<Longrightarrow> fld db f y = f r"
  by (simp add: fld_def)

lemma known_simps [simp]:
  "known db []" "known db (x # xs) = (map_of db x \<noteq> None \<and> known db xs)"
  "known db (xs @ ys) = (known db xs \<and> known db ys)"
  by (auto simp: known_def)

lemma sum_field_known: "known db xs \<Longrightarrow> sum_field db f xs = Inr (sum_list (map (fld db f) xs))"
  by (induction xs) (auto simp: getitem_def fld_def split: option.splits)

lemma check_basic_known: "check_basic db xs = Inr u \<Longrightarrow> known db xs"
  by (induction xs) (auto simp: getitem_def split: option.splits if_splits)

lemma ratio_keys_ok:
  "known db xs \<Longrightarrow> \<forall>s \<in> set xs. fld db Tempo s \<noteq> 0 \<Longrightarrow> \<exists>ks. ratio_keys db xs = Inr ks \<and> map fst ks = xs"
  by (induction xs) (auto simp: getitem_def fld_def split: option.splits)

lemma mset_sorted_desc: "mset (sorted_desc ks) = mset (map fst ks)"
  unfolding sorted_desc_def by (metis mset_map mset_sort)

subsection \<open>The greedy pass\<close>

lemma greedy_loop_char:
  "known db ys \<Longrightarrow>
   \<exists>g ps. greedy_loop db m ys sel tv tt = Inr g \<and> prefix ps ys \<and> selected g = sel @ ps
     \<and> total_value g = tv + sum_list (map (fld db Valor) ps)
     \<and> total_time g = tt + sum_list (map (fld db Tempo) ps)
     \<and> (total_value g \<ge> m \<or> ps = ys)"
proof (induction ys arbitrary: sel tv tt)
  case Nil
  then show ?case by simp
next
  case (Cons y ys)
  then obtain r where r: "map_of db y = Some r" and k: "known db ys" by auto
  show ?case
  proof (cases "tv + Valor r \<ge> m")
    case True
    then show ?thesis using r
      by (intro exI[where x="[y]"] exI) (auto simp: getitem_def fld_Some)
  next
    case False
    from Cons.IH[OF k, of "sel @ [y]" "tv + Valor r" "tt + Tempo r"]
    obtain g ps where g: "greedy_loop db m ys (sel @ [y]) (tv + Valor r) (tt + Tempo r) = Inr g"
      "prefix ps ys" "selected g = (sel @ [y]) @ ps"
      "total_value g = tv + Valor r + sum_list (map (fld db Valor) ps)"
      "total_time g = tt + Tempo r + sum_list (map (fld db Tempo) ps)"
      "total_value g \<ge> m \<or> ps = ys" by blast
    show ?thesis
      apply (rule exI[where x=g], rule exI[where x="y # ps"])
      using g r False by (auto simp: getitem_def fld_Some)
  qed
qed

subsection \<open>The value table of the DP\<close>

lemma dict_set_set: "set (dict_set k v tbl) \<subseteq> insert (k, v) (set tbl)"
  by (induction tbl) (auto split: if_splits)

lemma dict_set_mem: "(k, v) \<in> set (dict_set k v tbl)"
  by (induction tbl) auto

lemma dict_set_keep:
  "e \<in> set tbl \<Longrightarrow> e \<in> set (dict_set k v tbl) \<or> (map_of tbl k = Some (snd e) \<and> fst e = k)"
  by (induction tbl) (auto split: if_splits)

lemma relax_value_sound:
  "set (relax_value i r (cv, (ct, cs)) tbl) \<subseteq> insert (cv + Valor r, (ct + Tempo r, cs @ [i])) (set tbl)"
  using dict_set_set[of "cv + Valor r" "(ct + Tempo r, cs @ [i])" tbl]
  by (auto simp: relax_value_def Let_def split: option.splits)

lemma relax_value_mono: "covers tbl v t \<Longrightarrow> covers (relax_value i r e tbl) v t"
proof -
  assume "covers tbl v t"
  then obtain t' sk where m: "(v, (t', sk)) \<in> set tbl" "t' \<le> t" by (auto simp: covers_def)
  obtain cv ct cs where e: "e = (cv, (ct, cs))" by (cases e) auto
  let ?k = "cv + Valor r" and ?v = "(ct + Tempo r, cs @ [i])"
  have keep: "(v, (t', sk)) \<in> set (dict_set ?k ?v tbl) \<or> (map_of tbl ?k = Some (t', sk) \<and> v = ?k)"
    using dict_set_keep[OF m(1), of ?k ?v] by simp
  have new: "(?k, ?v) \<in> set (dict_set ?k ?v tbl)" by (rule dict_set_mem)
  show ?thesis
  proof (cases "map_of tbl ?k")
    case None
    then show ?thesis using keep m(2) by (auto simp: e covers_def relax_value_def Let_def)
  next
    case (Some old)
    show ?thesis
    proof (cases "ct + Tempo r < fst old")
      case True
      then show ?thesis using keep new m(2) Some
        by (fastforce simp: e covers_def relax_value_def Let_def)
    next
      case False
      then show ?thesis using m Some
        by (auto simp: e covers_def relax_value_def Let_def)
    qed
  qed
qed

lemma relax_value_new: "covers (relax_value i r (cv, (ct, cs)) tbl) (cv + Valor r) (ct + Tempo r)"
proof (cases "map_of tbl (cv + Valor r)")
  case None
  then show ?thesis using dict_set_mem[of "cv + Valor r" "(ct + Tempo r, cs @ [i])" tbl]
    by (auto simp: relax_value_def covers_def Let_def)
next
  case (Some old)
  then have "(cv + Valor r, old) \<in> set tbl" by (rule map_of_SomeD)
  then show ?thesis using Some dict_set_mem[of "cv + Valor r" "(ct + Tempo r, cs @ [i])" tbl]
    by (cases old) (auto simp: relax_value_def covers_def Let_def)
qed

lemma fold_relax_mono: "covers tbl v t \<Longrightarrow> covers (fold (relax_value i r) es tbl) v t"
  by (induction es arbitrary: tbl) (auto intro: relax_value_mono)

lemma fold_relax_new:
  "(cv, (ct, cs)) \<in> set es \<Longrightarrow> covers (fold (relax_value i r) es tbl) (cv + Valor r) (ct + Tempo r)"
  by (induction es arbitrary: tbl) (auto intro: relax_value_new fold_relax_mono)

lemma fold_relax_sound:
  "set (fold (relax_value i r) es tbl) \<subseteq>
     set tbl \<union> (\<lambda>(cv, (ct, cs)). (cv + Valor r, (ct + Tempo r, cs @ [i]))) ` set es"
proof (induction es arbitrary: tbl)
  case Nil
  then show ?case by simp
next
  case (Cons e es)
  obtain cv ct cs where e: "e = (cv, (ct, cs))" by (cases e) auto
  show ?case using Cons[of "relax_value i r e tbl"] relax_value_sound[of i r cv ct cs tbl]
    unfolding e by auto
qed

lemma subset_add_mset_cases:
  assumes "M \<subseteq># add_mset x N"
  shows "M \<subseteq># N \<or> (\<exists>M'. M = add_mset x M' \<and> M' \<subseteq># N)"
proof (cases "x \<in># M")
  case True
  then obtain M' where M: "M = add_mset x M'" by (meson multi_member_split)
  with assms have "M' \<subseteq># N" by simp
  with M show ?thesis by blast
next
  case False
  have "M \<subseteq># N"
  proof (rule mset_subset_eqI)
    fix a
    from assms have c: "count M a \<le> count (add_mset x N) a" by (rule mset_subset_eq_count)
    show "count M a \<le> count N a"
    proof (cases "a = x")
      case True
      with False have "count M a = 0" by (simp add: not_in_iff)
      then show ?thesis by simp
    next
      case False
      with c show ?thesis by simp
    qed
  qed
  then show ?thesis by blast
qed

lemma subseq_mset_subset: "subseq c xs \<Longrightarrow> mset c \<subseteq># mset xs"
proof (induction rule: list_emb.induct)
  case (list_emb_Nil ys)
  then show ?case by simp
next
  case (list_emb_Cons xs ys y)
  have "mset ys \<subseteq># add_mset y (mset ys)" by simp
  with list_emb_Cons.IH show ?case by (simp add: subset_mset.order_trans[OF list_emb_Cons.IH])
next
  case (list_emb_Cons2 x y xs ys)
  then show ?case by simp
qed

lemma vsum_simps [simp]:
  "vsum db f {#} = 0" "vsum db f (add_mset x M) = fld db f x + vsum db f M"
  "vsum db f (M + N) = vsum db f M + vsum db f N"
  by (simp_all add: vsum_def)

lemma vsum_mset: "vsum db f (mset xs) = sum_list (map (fld db f) xs)"
  by (induction xs) auto

lemma dp_inv_init: "dp_inv db [] [(0, (0, []))]"
  by (auto simp: dp_inv_def covers_def)

lemma dp_inv_sound:
  "dp_inv db pre tbl \<Longrightarrow> (v, (t, sk)) \<in> set tbl \<Longrightarrow>
     subseq sk pre \<and> vsum db Valor (mset sk) = v \<and> vsum db Tempo (mset sk) = t"
  unfolding dp_inv_def by blast

lemma dp_inv_complete:
  "dp_inv db pre tbl \<Longrightarrow> M \<subseteq># mset pre \<Longrightarrow> covers tbl (vsum db Valor M) (vsum db Tempo M)"
  unfolding dp_inv_def by blast

lemma step_sound:
  assumes r: "map_of db x = Some r" and inv: "dp_inv db pre tbl"
    and m: "(v, (t, sk)) \<in> set (fold (relax_value x r) tbl tbl)"
  shows "subseq sk (pre @ [x]) \<and> vsum db Valor (mset sk) = v \<and> vsum db Tempo (mset sk) = t"
proof -
  from m fold_relax_sound[of x r tbl tbl]
  have "(v, (t, sk)) \<in> set tbl \<or>
     (v, (t, sk)) \<in> (\<lambda>(cv, (ct, cs)). (cv + Valor r, (ct + Tempo r, cs @ [x]))) ` set tbl"
    by blast
  then consider "(v, (t, sk)) \<in> set tbl"
    | cv ct cs where "(cv, (ct, cs)) \<in> set tbl" "v = cv + Valor r" "t = ct + Tempo r" "sk = cs @ [x]"
    by (auto simp: image_iff split: prod.splits)
  then show ?thesis
  proof cases
    case 1
    from dp_inv_sound[OF inv 1] show ?thesis by (blast intro: list_emb_prefix)
  next
    case 2
    from dp_inv_sound[OF inv 2(1)]
    have a: "subseq cs pre" and b: "vsum db Valor (mset cs) = cv" and c: "vsum db Tempo (mset cs) = ct"
      by simp_all
    have "subseq (cs @ [x]) (pre @ [x])" using a by (simp add: list_emb_append_mono)
    moreover have "vsum db Valor (mset (cs @ [x])) = cv + Valor r" using b by (simp add: fld_Some[OF r])
    moreover have "vsum db Tempo (mset (cs @ [x])) = ct + Tempo r" using c by (simp add: fld_Some[OF r])
    ultimately show ?thesis unfolding 2 by blast
  qed
qed

lemma split_last_mset:
  assumes m: "M \<subseteq># mset (pre @ [x])"
  shows "M \<subseteq># mset pre \<or> (\<exists>M'. M = add_mset x M' \<and> M' \<subseteq># mset pre)"
proof -
  from m have "M \<subseteq># add_mset x (mset pre)" by simp
  then show ?thesis by (rule subset_add_mset_cases)
qed

lemma vsum_add_known:
  assumes r: "map_of db x = Some r" and "M = add_mset x M'"
  shows "vsum db f M = vsum db f M' + f r"
  using assms(2) by (simp add: fld_Some[OF r])

lemma step_extend:
  assumes r: "map_of db x = Some r" and inv: "dp_inv db pre tbl"
    and 2: "M' \<subseteq># mset pre"
  shows "covers (fold (relax_value x r) tbl tbl) (vsum db Valor M' + Valor r) (vsum db Tempo M' + Tempo r)"
proof -
    from dp_inv_complete[OF inv 2]
    obtain t' sk where e: "(vsum db Valor M', (t', sk)) \<in> set tbl" "t' \<le> vsum db Tempo M'"
      unfolding covers_def by blast
    from fold_relax_new[OF e(1), of x r tbl]
    obtain t'' sk' where n:
      "(vsum db Valor M' + Valor r, (t'', sk')) \<in> set (fold (relax_value x r) tbl tbl)"
      "t'' \<le> t' + Tempo r" unfolding covers_def by blast
    have "t'' \<le> vsum db Tempo M' + Tempo r" using n(2) e(2) by linarith
    with n(1) show ?thesis unfolding covers_def by blast
qed

lemma step_complete:
  assumes r: "map_of db x = Some r" and inv: "dp_inv db pre tbl"
    and m: "M \<subseteq># mset (pre @ [x])"
  shows "covers (fold (relax_value x r) tbl tbl) (vsum db Valor M) (vsum db Tempo M)"
proof -
  from split_last_mset[OF m] show ?thesis
  proof
    assume "M \<subseteq># mset pre"
    from dp_inv_complete[OF inv this] show ?thesis by (rule fold_relax_mono)
  next
    assume "\<exists>M'. M = add_mset x M' \<and> M' \<subseteq># mset pre"
    then obtain M' where M: "M = add_mset x M'" and s: "M' \<subseteq># mset pre" by blast
    show ?thesis
      unfolding vsum_add_known[OF r M] by (rule step_extend[OF r inv s])
  qed
qed

lemma dp_inv_step:
  assumes r: "map_of db x = Some r" and inv: "dp_inv db pre tbl"
  shows "dp_inv db (pre @ [x]) (fold (relax_value x r) tbl tbl)"
  unfolding dp_inv_def
proof (rule conjI)
  show "\<forall>v t sk. (v, t, sk) \<in> set (fold (relax_value x r) tbl tbl) \<longrightarrow>
     subseq sk (pre @ [x]) \<and> vsum db Valor (mset sk) = v \<and> vsum db Tempo (mset sk) = t"
    using step_sound[OF r inv] by blast
  show "\<forall>M. M \<subseteq># mset (pre @ [x]) \<longrightarrow>
     covers (fold (relax_value x r) tbl tbl) (vsum db Valor M) (vsum db Tempo M)"
    using step_complete[OF r inv] by blast
qed

lemma value_dp_loop_inv:
  "known db xs \<Longrightarrow> dp_inv db pre tbl \<Longrightarrow>
   \<exists>tbl'. value_dp_loop db xs tbl = Inr tbl' \<and> dp_inv db (pre @ xs) tbl'"
proof (induction xs arbitrary: pre tbl)
  case Nil
  then show ?case by simp
next
  case (Cons x xs)
  then obtain r where r: "map_of db x = Some r" and k: "known db xs" by auto
  from Cons.IH[OF k dp_inv_step[OF r Cons.prems(2)]] r
  show ?case by (simp add: getitem_def)
qed

subsection \<open>The final scan of the DP\<close>

lemma dp_pick_cases:
  obtains (take) v0 t0 sk0 where "e = (v0, (t0, sk0))" "v0 \<ge> m" "dp_pick m e b = Some (t0, sk0, v0)"
      "\<And>bt bs bv. b = Some (bt, bs, bv) \<Longrightarrow> t0 < bt"
  | (low) v0 t0 sk0 where "e = (v0, (t0, sk0))" "v0 < m" "dp_pick m e b = b"
  | (keep) v0 t0 sk0 bt bs bv where "e = (v0, (t0, sk0))" "b = Some (bt, bs, bv)" "bt \<le> t0"
      "dp_pick m e b = b"
proof -
  obtain v0 t0 sk0 where e: "e = (v0, (t0, sk0))" by (cases e) auto
  show ?thesis
  proof (cases "v0 \<ge> m")
    case False
    then show ?thesis using low[of v0 t0 sk0] e by (simp add: dp_pick_def)
  next
    case True
    show ?thesis
    proof (cases b)
      case None
      then show ?thesis using take[of v0 t0 sk0] e True by (simp add: dp_pick_def)
    next
      case (Some p)
      obtain bt bs bv where p: "p = (bt, bs, bv)" by (cases p) auto
      show ?thesis
      proof (cases "t0 < bt")
        case True
        then show ?thesis using take[of v0 t0 sk0] e \<open>v0 \<ge> m\<close> Some p by (simp add: dp_pick_def)
      next
        case False
        then show ?thesis using keep[of v0 t0 sk0 bt bs bv] e \<open>v0 \<ge> m\<close> Some p
          by (simp add: dp_pick_def)
      qed
    qed
  qed
qed

lemma fold_pick_None:
  "fold (dp_pick m) es b = None \<longleftrightarrow> b = None \<and> (\<forall>e \<in> set es. fst e < m)"
proof (induction es arbitrary: b)
  case Nil
  then show ?case by simp
next
  case (Cons e es)
  show ?case
  proof (cases rule: dp_pick_cases[of e m b])
    case (take v0 t0 sk0)
    then show ?thesis using Cons.IH[of "Some (t0, sk0, v0)"] by auto
  next
    case (low v0 t0 sk0)
    then show ?thesis using Cons.IH[of b] by auto
  next
    case (keep v0 t0 sk0 bt bs bv)
    then show ?thesis using Cons.IH[of b] by auto
  qed
qed

lemma fold_pick_mem:
  "fold (dp_pick m) es b = Some (t, sk, v) \<Longrightarrow>
     ((v, (t, sk)) \<in> set es \<and> v \<ge> m) \<or> b = Some (t, sk, v)"
proof (induction es arbitrary: b)
  case Nil
  then show ?case by simp
next
  case (Cons e es)
  from Cons.prems have f: "fold (dp_pick m) es (dp_pick m e b) = Some (t, sk, v)" by simp
  show ?case
  proof (cases rule: dp_pick_cases[of e m b])
    case (take v0 t0 sk0)
    then show ?thesis using Cons.IH[OF f] by auto
  next
    case (low v0 t0 sk0)
    then show ?thesis using Cons.IH[OF f] by auto
  next
    case (keep v0 t0 sk0 bt bs bv)
    then show ?thesis using Cons.IH[OF f] by auto
  qed
qed

lemma fold_pick_le:
  "fold (dp_pick m) es b = Some (t, sk, v) \<Longrightarrow>
     (\<forall>v' t' sk'. (v', (t', sk')) \<in> set es \<and> v' \<ge> m \<longrightarrow> t \<le> t')
     \<and> (\<forall>bt bs bv. b = Some (bt, bs, bv) \<longrightarrow> t \<le> bt)"
proof (induction es arbitrary: b)
  case Nil
  then show ?case by simp
next
  case (Cons e es)
  from Cons.prems have f: "fold (dp_pick m) es (dp_pick m e b) = Some (t, sk, v)" by simp
  note IH = Cons.IH[OF f]
  show ?case
  proof (cases rule: dp_pick_cases[of e m b])
    case (take v0 t0 sk0)
    with IH have a: "\<forall>v' t' sk'. (v', (t', sk')) \<in> set es \<and> v' \<ge> m \<longrightarrow> t \<le> t'" and b: "t \<le> t0"
      by auto
    show ?thesis using a b take(1,4) by fastforce
  next
    case (low v0 t0 sk0)
    with IH have a: "\<forall>v' t' sk'. (v', (t', sk')) \<in> set es \<and> v' \<ge> m \<longrightarrow> t \<le> t'"
      and b: "\<forall>bt bs bv. b = Some (bt, bs, bv) \<longrightarrow> t \<le> bt"
      by auto
    show ?thesis using a b low(1,2) by auto
  next
    case (keep v0 t0 sk0 bt bs bv)
    with IH have a: "\<forall>v' t' sk'. (v', (t', sk')) \<in> set es \<and> v' \<ge> m \<longrightarrow> t \<le> t'"
      and b: "t \<le> bt"
      by auto
    show ?thesis using a b keep(1,2,3) by auto
  qed
qed

subsection \<open>The brute-force enumeration\<close>

lemma set_combinations: "set (combinations xs k) = {c. subseq c xs \<and> length c = k}"
proof (induction xs k rule: combinations.induct)
  case (1 xs)
  then show ?case by auto
next
  case (2 k)
  then show ?case by auto
next
  case (3 x xs k)
  show ?case
  proof (rule set_eqI)
    fix c
    show "c \<in> set (combinations (x # xs) (Suc k)) \<longleftrightarrow> c \<in> {c. subseq c (x # xs) \<and> length c = Suc k}"
    proof (cases c)
      case Nil
      then show ?thesis using 3 by auto
    next
      case (Cons y ys)
      show ?thesis
      proof (cases "y = x")
        case True
        have a: "subseq (x # ys) xs \<Longrightarrow> subseq ys xs"
          by (metis subseq_Cons')
        show ?thesis using 3 Cons True a by (auto simp: image_iff)
      next
        case False
        then show ?thesis using 3 Cons by (auto simp: image_iff)
      qed
    qed
  qed
qed

lemma set_all_combinations:
  "set (concat (map (combinations xs) [1 ..< length xs + 1])) = {c. subseq c xs \<and> c \<noteq> []}"
proof (rule set_eqI)
  fix c
  have "subseq c xs \<Longrightarrow> length c \<le> length xs" by (rule list_emb_length)
  then show "c \<in> set (concat (map (combinations xs) [1 ..< length xs + 1])) \<longleftrightarrow>
     c \<in> {c. subseq c xs \<and> c \<noteq> []}"
    by (cases c) (auto simp: set_combinations)
qed

lemma known_subseq: "known db xs \<Longrightarrow> subseq c xs \<Longrightarrow> known db c"
  unfolding known_def by (meson subseq_order.dual_order.trans set_mp subseq_singleton_left)

lemma known_mset: "known db xs \<Longrightarrow> mset ys = mset xs \<Longrightarrow> known db ys"
  unfolding known_def by (metis mset_eq_setD)

lemma bf_try_cases [consumes 1, case_names take low keep]:
  assumes "known db c"
  obtains (take) "vsum db Valor (mset c) \<ge> m"
      "bf_try db m c best = Inr (Some (vsum db Tempo (mset c), c))"
      "\<And>bt bs. best = Some (bt, bs) \<Longrightarrow> vsum db Tempo (mset c) < bt"
  | (low) "vsum db Valor (mset c) < m" "bf_try db m c best = Inr best"
  | (keep) bt bs where "best = Some (bt, bs)" "bt \<le> vsum db Tempo (mset c)"
      "bf_try db m c best = Inr best"
proof -
  note sf = sum_field_known[OF assms] vsum_mset
  show ?thesis
  proof (cases "vsum db Valor (mset c) \<ge> m")
    case False
    then show ?thesis using low by (simp add: bf_try_def sf)
  next
    case True
    show ?thesis
    proof (cases best)
      case None
      then show ?thesis using take True by (simp add: bf_try_def sf)
    next
      case (Some p)
      obtain bt bs where p: "p = (bt, bs)" by (cases p) auto
      show ?thesis
      proof (cases "vsum db Tempo (mset c) < bt")
        case True
        then show ?thesis using take \<open>vsum db Valor (mset c) \<ge> m\<close> Some p
          by (simp add: bf_try_def sf)
      next
        case False
        then show ?thesis using keep[of bt bs] \<open>vsum db Valor (mset c) \<ge> m\<close> Some p
          by (simp add: bf_try_def sf)
      qed
    qed
  qed
qed

lemma bf_loop_total:
  "\<forall>c \<in> set cs. known db c \<Longrightarrow> \<exists>res. bf_loop db m cs best = Inr res"
proof (induction cs arbitrary: best)
  case Nil
  then show ?case by simp
next
  case (Cons c cs)
  then have k: "known db c" and ks: "\<forall>c \<in> set cs. known db c" by auto
  from k show ?case
    by (cases rule: bf_try_cases[where m=m and best=best]) (use Cons.IH[OF ks] in auto)
qed

lemma bf_loop_None:
  "\<forall>c \<in> set cs. known db c \<Longrightarrow>
   bf_loop db m cs best = Inr None \<longleftrightarrow>
     best = None \<and> (\<forall>c \<in> set cs. vsum db Valor (mset c) < m)"
proof (induction cs arbitrary: best)
  case Nil
  then show ?case by simp
next
  case (Cons c cs)
  then have k: "known db c" and ks: "\<forall>c \<in> set cs. known db c" by auto
  from k show ?case
  proof (cases rule: bf_try_cases[where m=m and best=best])
    case take
    then show ?thesis using Cons.IH[OF ks, of "Some (vsum db Tempo (mset c), c)"] by auto
  next
    case low
    then show ?thesis using Cons.IH[OF ks, of best] by auto
  next
    case (keep bt bs)
    then show ?thesis using Cons.IH[OF ks, of best] by auto
  qed
qed

lemma bf_loop_mem:
  "\<forall>c \<in> set cs. known db c \<Longrightarrow> bf_loop db m cs best = Inr (Some (t, sol)) \<Longrightarrow>
     (sol \<in> set cs \<and> vsum db Valor (mset sol) \<ge> m \<and> vsum db Tempo (mset sol) = t)
     \<or> best = Some (t, sol)"
proof (induction cs arbitrary: best)
  case Nil
  then show ?case by simp
next
  case (Cons c cs)
  then have k: "known db c" and ks: "\<forall>c \<in> set cs. known db c" by auto
  from k show ?case
  proof (cases rule: bf_try_cases[where m=m and best=best])
    case take
    with Cons.prems(2) have "bf_loop db m cs (Some (vsum db Tempo (mset c), c)) = Inr (Some (t, sol))"
      by simp
    from Cons.IH[OF ks this] take(1) show ?thesis by auto
  next
    case low
    with Cons.prems(2) have "bf_loop db m cs best = Inr (Some (t, sol))" by simp
    from Cons.IH[OF ks this] show ?thesis by auto
  next
    case (keep bt bs)
    with Cons.prems(2) have "bf_loop db m cs best = Inr (Some (t, sol))" by simp
    from Cons.IH[OF ks this] show ?thesis by auto
  qed
qed

lemma bf_loop_le:
  "\<forall>c \<in> set cs. known db c \<Longrightarrow> bf_loop db m cs best = Inr (Some (t, sol)) \<Longrightarrow>
     (\<forall>c \<in> set cs. vsum db Valor (mset c) \<ge> m \<longrightarrow> t \<le> vsum db Tempo (mset c))
     \<and> (\<forall>bt bs. best = Some (bt, bs) \<longrightarrow> t \<le> bt)"
proof (induction cs arbitrary: best)
  case Nil
  then show ?case by simp
next
  case (Cons c cs)
  then have k: "known db c" and ks: "\<forall>c \<in> set cs. known db c" by auto
  from k show ?case
  proof (cases rule: bf_try_cases[where m=m and best=best])
    case take
    with Cons.prems(2) have "bf_loop db m cs (Some (vsum db Tempo (mset c), c)) = Inr (Some (t, sol))"
      by simp
    from Cons.IH[OF ks this]
    have a: "\<forall>c \<in> set cs. vsum db Valor (mset c) \<ge> m \<longrightarrow> t \<le> vsum db Tempo (mset c)"
      and b: "t \<le> vsum db Tempo (mset c)" by auto
    show ?thesis using a b take(3) by fastforce
  next
    case low
    with Cons.prems(2) have "bf_loop db m cs best = Inr (Some (t, sol))" by simp
    from Cons.IH[OF ks this] low(1) show ?thesis by auto
  next
    case (keep bt bs)
    with Cons.prems(2) have "bf_loop db m cs best = Inr (Some (t, sol))" by simp
    from Cons.IH[OF ks this] keep(1,2) show ?thesis by auto
  qed
qed

subsection \<open>What the three solvers return\<close>

lemma init_optimizer_known:
  assumes "init_optimizer db basic m = Inr opt"
  shows "opt_skills_db opt = db" "basic_skills opt = basic" "min_adapt opt = m" "known db basic"
proof -
  from assms obtain u where u: "check_basic db basic = Inr u"
    and o: "opt = \<lparr>opt_skills_db = db, basic_skills = basic, min_adapt = m\<rparr>"
    by (auto simp: init_optimizer_def split: sum.splits)
  show "opt_skills_db opt = db" "basic_skills opt = basic" "min_adapt opt = m" by (simp_all add: o)
  show "known db basic" by (rule check_basic_known[OF u])
qed

lemma vsum_nonneg: "\<forall>s \<in># M. 0 \<le> fld db f s \<Longrightarrow> 0 \<le> vsum db f M"
  by (induction M) auto

lemma vsum_mono:
  assumes "N \<subseteq># M" "\<forall>s \<in># M. 0 \<le> fld db f s"
  shows "vsum db f N \<le> vsum db f M"
proof -
  from assms(1) obtain K where M: "M = N + K" by (rule mset_subset_eq_exists_conv[THEN iffD1, THEN exE])
  with assms(2) have "\<forall>s \<in># K. 0 \<le> fld db f s" by simp
  from vsum_nonneg[OF this] show ?thesis by (simp add: M)
qed

text \<open>What the DP returns, for candidates that are all in the database.\<close>

lemma dp_table:
  assumes "known db xs"
  obtains tbl where "value_dp_loop db xs [(0, (0, []))] = Inr tbl" "dp_inv db xs tbl"
  using value_dp_loop_inv[OF assms dp_inv_init] by auto

lemma dp_solution_None:
  assumes k: "known (opt_skills_db opt) (basic_skills opt)"
    and n: "\<forall>c. subseq c (basic_skills opt) \<longrightarrow> vsum (opt_skills_db opt) Valor (mset c) < min_adapt opt"
  shows "optimal_solution_dp opt = Inr None"
proof -
  from k obtain tbl where t: "value_dp_loop (opt_skills_db opt) (basic_skills opt) [(0, (0, []))] = Inr tbl"
    and inv: "dp_inv (opt_skills_db opt) (basic_skills opt) tbl" by (rule dp_table)
  have "\<forall>e \<in> set tbl. fst e < min_adapt opt"
  proof
    fix e assume e: "e \<in> set tbl"
    obtain v t sk where "e = (v, (t, sk))" by (cases e) auto
    with dp_inv_sound[OF inv, of v t sk] e n show "fst e < min_adapt opt" by auto
  qed
  then have "fold (dp_pick (min_adapt opt)) tbl None = None" by (simp add: fold_pick_None)
  then show ?thesis by (simp add: optimal_solution_dp_def t)
qed

lemma dp_solution_Some:
  assumes k: "known (opt_skills_db opt) (basic_skills opt)"
    and d: "optimal_solution_dp opt = Inr (Some d)"
  shows "subseq (selected d) (basic_skills opt)"
    and "vsum (opt_skills_db opt) Valor (mset (selected d)) = total_value d"
    and "vsum (opt_skills_db opt) Tempo (mset (selected d)) = total_time d"
    and "min_adapt opt \<le> total_value d"
    and "\<And>M. M \<subseteq># mset (basic_skills opt) \<Longrightarrow> min_adapt opt \<le> vsum (opt_skills_db opt) Valor M
           \<Longrightarrow> total_time d \<le> vsum (opt_skills_db opt) Tempo M"
proof -
  let ?db = "opt_skills_db opt" and ?xs = "basic_skills opt" and ?m = "min_adapt opt"
  from k obtain tbl where t: "value_dp_loop ?db ?xs [(0, (0, []))] = Inr tbl"
    and inv: "dp_inv ?db ?xs tbl" by (rule dp_table)
  from d obtain bt bs bv where f: "fold (dp_pick ?m) tbl None = Some (bt, bs, bv)"
    and dd: "d = \<lparr>algorithm = dp_label, selected = bs, total_value = bv, total_time = bt,
                 num_skills = length bs\<rparr>"
    by (auto simp: optimal_solution_dp_def t split: option.splits)
  from fold_pick_mem[OF f] have mem: "(bv, (bt, bs)) \<in> set tbl" and ge: "?m \<le> bv" by auto
  from dp_inv_sound[OF inv mem]
  show "subseq (selected d) ?xs" "vsum ?db Valor (mset (selected d)) = total_value d"
    "vsum ?db Tempo (mset (selected d)) = total_time d"
    by (simp_all add: dd)
  show "?m \<le> total_value d" using ge by (simp add: dd)
  fix M assume M: "M \<subseteq># mset ?xs" "?m \<le> vsum ?db Valor M"
  from dp_inv_complete[OF inv M(1)] obtain t' sk where
    e: "(vsum ?db Valor M, (t', sk)) \<in> set tbl" "t' \<le> vsum ?db Tempo M"
    unfolding covers_def by blast
  from fold_pick_le[OF f] e(1) M(2) have "bt \<le> t'" by blast
  with e(2) show "total_time d \<le> vsum ?db Tempo M" by (simp add: dd)
qed

lemma dp_solution_total:
  assumes k: "known (opt_skills_db opt) (basic_skills opt)"
  shows "\<exists>res. optimal_solution_dp opt = Inr res"
proof -
  from k obtain tbl where t: "value_dp_loop (opt_skills_db opt) (basic_skills opt) [(0, (0, []))] = Inr tbl"
    by (rule dp_table)
  show ?thesis by (simp add: optimal_solution_dp_def t split: option.splits prod.splits)
qed

text \<open>What the greedy pass returns.\<close>

lemma greedy_solution_char:
  assumes k: "known (opt_skills_db opt) (basic_skills opt)"
    and nz: "\<forall>s \<in> set (basic_skills opt). fld (opt_skills_db opt) Tempo s \<noteq> 0"
  obtains g where "greedy_solution opt = Inr g"
    "mset (selected g) \<subseteq># mset (basic_skills opt)"
    "total_value g = vsum (opt_skills_db opt) Valor (mset (selected g))"
    "total_time g = vsum (opt_skills_db opt) Tempo (mset (selected g))"
    "min_adapt opt \<le> total_value g \<or> mset (selected g) = mset (basic_skills opt)"
proof -
  let ?db = "opt_skills_db opt" and ?xs = "basic_skills opt" and ?m = "min_adapt opt"
  from ratio_keys_ok[OF k nz] obtain ks where ks: "ratio_keys ?db ?xs = Inr ks" "map fst ks = ?xs"
    by blast
  let ?ys = "sorted_desc ks"
  have ms: "mset ?ys = mset ?xs" using mset_sorted_desc[of ks] ks(2) by simp
  have ky: "known ?db ?ys" by (rule known_mset[OF k ms])
  from greedy_loop_char[OF ky, of ?m "[]" 0 0] obtain g ps where
    g: "greedy_loop ?db ?m ?ys [] 0 0 = Inr g" "prefix ps ?ys" "selected g = ps"
       "total_value g = sum_list (map (fld ?db Valor) ps)"
       "total_time g = sum_list (map (fld ?db Tempo) ps)"
       "?m \<le> total_value g \<or> ps = ?ys" by auto
  from g(2) obtain zs where "?ys = ps @ zs" by (auto simp: prefix_def)
  then have "mset ps \<subseteq># mset ?ys" by (metis mset_append mset_subset_eq_add_left)
  then have sub: "mset (selected g) \<subseteq># mset ?xs" by (simp add: ms g(3))
  show ?thesis
  proof (rule that[of g])
    show "greedy_solution opt = Inr g" by (simp add: greedy_solution_def ks(1) g(1))
    show "mset (selected g) \<subseteq># mset ?xs" by (rule sub)
    show "total_value g = vsum ?db Valor (mset (selected g))" by (simp add: g(3,4) vsum_mset)
    show "total_time g = vsum ?db Tempo (mset (selected g))" by (simp add: g(3,5) vsum_mset)
    show "?m \<le> total_value g \<or> mset (selected g) = mset ?xs" using g(6) g(3) ms by auto
  qed
qed

lemma fld_pos:
  assumes "known db xs" "\<forall>s \<in> set xs. \<forall>r. map_of db s = Some r \<longrightarrow> P (f r)" "s \<in> set xs"
  shows "P (fld db f s)"
proof -
  from assms(1,3) obtain r where r: "map_of db s = Some r" by (auto simp: known_def)
  with assms(2,3) have "P (f r)" by blast
  then show ?thesis by (simp add: fld_Some[OF r])
qed

lemma bf_solution_char:
  assumes k: "known (opt_skills_db opt) (basic_skills opt)"
  obtains (none) "optimal_solution_bruteforce opt = Inr None"
      "\<And>c. subseq c (basic_skills opt) \<Longrightarrow> c \<noteq> [] \<Longrightarrow>
         vsum (opt_skills_db opt) Valor (mset c) < min_adapt opt"
  | (some) b where "optimal_solution_bruteforce opt = Inr (Some b)"
      "subseq (selected b) (basic_skills opt)" "selected b \<noteq> []"
      "min_adapt opt \<le> vsum (opt_skills_db opt) Valor (mset (selected b))"
      "total_time b = vsum (opt_skills_db opt) Tempo (mset (selected b))"
      "\<And>c. subseq c (basic_skills opt) \<Longrightarrow> c \<noteq> [] \<Longrightarrow>
         min_adapt opt \<le> vsum (opt_skills_db opt) Valor (mset c) \<Longrightarrow>
         total_time b \<le> vsum (opt_skills_db opt) Tempo (mset c)"
proof -
  let ?db = "opt_skills_db opt" and ?xs = "basic_skills opt" and ?m = "min_adapt opt"
  let ?C = "concat (map (combinations ?xs) [1 ..< length ?xs + 1])"
  have C: "set ?C = {c. subseq c ?xs \<and> c \<noteq> []}" by (rule set_all_combinations)
  have kc: "\<forall>c \<in> set ?C. known ?db c" unfolding C using known_subseq[OF k] by blast
  from bf_loop_total[OF kc, of ?m None] obtain res where res: "bf_loop ?db ?m ?C None = Inr res"
    by blast
  show ?thesis
  proof (cases res)
    case None
    with res bf_loop_None[OF kc, of ?m None]
    have "\<forall>c \<in> set ?C. vsum ?db Valor (mset c) < ?m" by simp
    then have "\<And>c. subseq c ?xs \<Longrightarrow> c \<noteq> [] \<Longrightarrow> vsum ?db Valor (mset c) < ?m"
      unfolding C by blast
    moreover have "optimal_solution_bruteforce opt = Inr None"
      using res None by (simp add: optimal_solution_bruteforce_def Let_def)
    ultimately show ?thesis by (rule none[rotated])
  next
    case (Some p)
    obtain bt bs where p: "p = (bt, bs)" by (cases p) auto
    from res Some p have r: "bf_loop ?db ?m ?C None = Inr (Some (bt, bs))" by simp
    from bf_loop_mem[OF kc r] have mem: "bs \<in> set ?C" and v: "?m \<le> vsum ?db Valor (mset bs)"
      and t: "vsum ?db Tempo (mset bs) = bt" by auto
    from mem have sub: "subseq bs ?xs" and ne: "bs \<noteq> []" unfolding C by auto
    have kb: "known ?db bs" by (rule known_subseq[OF k sub])
    let ?b = "\<lparr>algorithm = bf_label, selected = bs,
        total_value = sum_list (map (fld ?db Valor) bs), total_time = bt, num_skills = length bs\<rparr>"
    have eq: "optimal_solution_bruteforce opt = Inr (Some ?b)"
      using r by (simp add: optimal_solution_bruteforce_def Let_def sum_field_known[OF kb])
    have le: "\<And>c. subseq c ?xs \<Longrightarrow> c \<noteq> [] \<Longrightarrow> ?m \<le> vsum ?db Valor (mset c) \<Longrightarrow>
         bt \<le> vsum ?db Tempo (mset c)"
      using bf_loop_le[OF kc r] unfolding C by blast
    show ?thesis
      by (rule some[of ?b]) (use eq sub ne v t le in simp_all)
  qed
qed

lemma vsum_pos_nonempty: "0 < vsum db f (mset c) \<Longrightarrow> c \<noteq> []"
  by auto

section \<open>Correctness of the path solver\<close>

subsection \<open>Tables, paths and the state invariant\<close>

lemma cells_Nil [simp]: "cells [] = {}"
  by (simp add: cells_def)

lemma cells_Cons: "cells ((k, ss) # dp) = (\<lambda>st. (k, st)) ` set ss \<union> cells dp"
  by (auto simp: cells_def)

lemma cells_dd_append: "cells (dd_append k s dp) = insert (k, s) (cells dp)"
proof (induction dp)
  case Nil
  then show ?case by (simp add: cells_Cons)
next
  case (Cons c dp)
  obtain k' ss where c: "c = (k', ss)" by (cases c) auto
  show ?case
  proof (cases "k = k'")
    case True
    then show ?thesis unfolding c by (auto simp: cells_Cons)
  next
    case False
    then show ?thesis unfolding c using Cons.IH by (auto simp: cells_Cons)
  qed
qed

lemma prereqs_before_append:
  "prereqs_before db seen (p @ [x]) \<longleftrightarrow>
     prereqs_before db seen p \<and> (\<exists>r. map_of db x = Some r \<and> set (Pre_Reqs r) \<subseteq> seen \<union> set p)"
  by (induction p arbitrary: seen) (auto split: option.splits)

lemma prereqs_before_known: "prereqs_before db seen p \<Longrightarrow> known db p"
  by (induction p arbitrary: seen) (auto split: option.splits)

lemma prereqs_before_closed:
  "prereqs_before db seen p \<Longrightarrow> x \<in> set p \<Longrightarrow> map_of db x = Some r \<Longrightarrow>
     set (Pre_Reqs r) \<subseteq> seen \<union> set p"
proof (induction p arbitrary: seen)
  case Nil
  then show ?case by simp
next
  case (Cons y p)
  show ?case
  proof (cases "x = y")
    case True
    with Cons.prems show ?thesis by (auto split: option.splits)
  next
    case False
    with Cons.prems have "x \<in> set p" and "prereqs_before db (insert y seen) p"
      by (auto split: option.splits)
    from Cons.IH[OF this(2,1) Cons.prems(3)] show ?thesis by auto
  qed
qed

lemma prereqs_before_index:
  "prereqs_before db seen p \<Longrightarrow> i < length p \<Longrightarrow> map_of db (p ! i) = Some r \<Longrightarrow>
     set (Pre_Reqs r) \<subseteq> seen \<union> set (take i p)"
proof (induction p arbitrary: seen i)
  case Nil
  then show ?case by simp
next
  case (Cons y p)
  show ?case
  proof (cases i)
    case 0
    with Cons.prems show ?thesis by (auto split: option.splits)
  next
    case (Suc j)
    with Cons.prems have "j < length p" "map_of db (p ! j) = Some r"
      "prereqs_before db (insert y seen) p" by (auto split: option.splits)
    from Cons.IH[OF this(3,1,2)] show ?thesis by (auto simp: Suc)
  qed
qed

text \<open>A new state produced by a transition satisfies the invariant.\<close>

lemma transition_cells:
  assumes "c \<in> cells (transition skill_id r mt mc key st nd)"
  shows "c \<in> cells nd \<or>
     (list_all (\<lambda>p. p \<in> skills st) (Pre_Reqs r) \<and> skill_id \<notin> skills st
      \<and> fst key + Tempo r \<le> mt \<and> snd key + Complexidade r \<le> mc
      \<and> c = ((fst key + Tempo r, snd key + Complexidade r),
             \<lparr>valor = valor st + Valor r, skills = skills st \<union> {skill_id},
              path = path st @ [skill_id]\<rparr>))"
  using assms by (auto simp: transition_def Let_def cells_dd_append split: if_splits)

lemma state_inv_mono:
  "state_inv db seen mt mc c \<Longrightarrow> set seen \<subseteq> set seen' \<Longrightarrow> state_inv db seen' mt mc c"
  by (auto simp: state_inv_def split: prod.splits)

lemma state_inv_new:
  assumes inv: "state_inv db seen mt mc (key, st)"
    and r: "map_of db skill_id = Some r"
    and sat: "list_all (\<lambda>p. p \<in> skills st) (Pre_Reqs r)" and new: "skill_id \<notin> skills st"
    and le: "fst key + Tempo r \<le> mt" "snd key + Complexidade r \<le> mc"
  shows "state_inv db (seen @ [skill_id]) mt mc
     ((fst key + Tempo r, snd key + Complexidade r),
      \<lparr>valor = valor st + Valor r, skills = skills st \<union> {skill_id}, path = path st @ [skill_id]\<rparr>)"
proof -
  from inv have s: "skills st = set (path st)" and d: "distinct (path st)"
    and sub: "set (path st) \<subseteq> set seen"
    and t: "fst key = sum_list (map (fld db Tempo) (path st))"
    and c: "snd key = sum_list (map (fld db Complexidade) (path st))"
    and pb: "prereqs_before db {} (path st)"
    by (simp_all add: state_inv_def)
  from sat s have pre: "set (Pre_Reqs r) \<subseteq> set (path st)" by (auto simp: list_all_iff)
  have pb': "prereqs_before db {} (path st @ [skill_id])"
    unfolding prereqs_before_append using pb r pre by simp
  show ?thesis
    unfolding state_inv_def using s d sub t c new le pb' by (auto simp: fld_Some[OF r])
qed

lemma transition_cells':
  "c \<in> cells (transition skill_id r mt mc key st nd) \<Longrightarrow>
     c \<in> cells nd \<or> (admits skill_id r mt mc (key, st) \<and> c = step_cell skill_id r (key, st))"
  using transition_cells[of c skill_id r mt mc key st nd]
  by (simp add: admits_def step_cell_def)

lemma inner_fold_cells:
  "c \<in> cells (fold (transition skill_id r mt mc key) sts nd) \<Longrightarrow>
     c \<in> cells nd \<or> (\<exists>st \<in> set sts. admits skill_id r mt mc (key, st) \<and> c = step_cell skill_id r (key, st))"
proof (induction sts arbitrary: nd)
  case Nil
  then show ?case by simp
next
  case (Cons st sts)
  from Cons.prems have "c \<in> cells (fold (transition skill_id r mt mc key) sts (transition skill_id r mt mc key st nd))"
    by simp
  from Cons.IH[OF this] transition_cells'[of c skill_id r mt mc key st nd]
  show ?case by auto
qed

lemma outer_fold_cells:
  "c \<in> cells (fold (\<lambda>cell nd. fold (transition skill_id r mt mc (fst cell)) (snd cell) nd) cs nd) \<Longrightarrow>
     c \<in> cells nd \<or> (\<exists>c0 \<in> cells cs. admits skill_id r mt mc c0 \<and> c = step_cell skill_id r c0)"
proof (induction cs arbitrary: nd)
  case Nil
  then show ?case by simp
next
  case (Cons cell cs)
  obtain k ss where cell: "cell = (k, ss)" by (cases cell) auto
  let ?nd = "fold (transition skill_id r mt mc k) ss nd"
  from Cons.prems have "c \<in> cells (fold (\<lambda>cell nd. fold (transition skill_id r mt mc (fst cell)) (snd cell) nd) cs ?nd)"
    by (simp add: cell)
  from Cons.IH[OF this] consider "c \<in> cells ?nd"
    | "\<exists>c0 \<in> cells cs. admits skill_id r mt mc c0 \<and> c = step_cell skill_id r c0" by blast
  then show ?case
  proof cases
    case 1
    from inner_fold_cells[OF 1] show ?thesis unfolding cell cells_Cons by blast
  next
    case 2
    then show ?thesis unfolding cell cells_Cons by blast
  qed
qed

lemma set_slice_to: "set (slice_to n xs) \<subseteq> set xs"
  by (auto simp: slice_to_def dest: in_set_takeD)

lemma set_prune: "set (prune_dominated_states sv ss) \<subseteq> set ss"
  using set_slice_to[of "max_states_per_cell sv" "sort_key (\<lambda>x. - valor x) ss"]
  by (auto simp: prune_dominated_states_def)

lemma cells_prune: "cells (map (\<lambda>cell. (fst cell, prune_dominated_states sv (snd cell))) dp) \<subseteq> cells dp"
  using set_prune by (fastforce simp: cells_def)

lemma dp_step_cells:
  assumes "c \<in> cells (dp_step sv mt mc skill_id r dp)"
  shows "c \<in> cells dp \<or> (\<exists>c0 \<in> cells dp. admits skill_id r mt mc c0 \<and> c = step_cell skill_id r c0)"
proof -
  from assms cells_prune have
    "c \<in> cells (fold (\<lambda>cell nd. fold (transition skill_id r mt mc (fst cell)) (snd cell) nd) dp dp)"
    unfolding dp_step_def Let_def by blast
  from outer_fold_cells[OF this] show ?thesis by blast
qed

lemma dp_step_inv:
  assumes r: "map_of db skill_id = Some r"
    and inv: "\<forall>c \<in> cells dp. state_inv db seen mt mc c"
  shows "\<forall>c \<in> cells (dp_step sv mt mc skill_id r dp). state_inv db (seen @ [skill_id]) mt mc c"
proof
  fix c assume "c \<in> cells (dp_step sv mt mc skill_id r dp)"
  from dp_step_cells[OF this] consider "c \<in> cells dp"
    | c0 where "c0 \<in> cells dp" "admits skill_id r mt mc c0" "c = step_cell skill_id r c0" by blast
  then show "state_inv db (seen @ [skill_id]) mt mc c"
  proof cases
    case 1
    with inv have "state_inv db seen mt mc c" by blast
    then show ?thesis by (rule state_inv_mono) auto
  next
    case 2
    obtain key st where c0: "c0 = (key, st)" by (cases c0) auto
    from 2(1) inv have i: "state_inv db seen mt mc (key, st)" unfolding c0 by blast
    from 2(2) have a: "list_all (\<lambda>p. p \<in> skills st) (Pre_Reqs r)" "skill_id \<notin> skills st"
      "fst key + Tempo r \<le> mt" "snd key + Complexidade r \<le> mc"
      by (simp_all add: admits_def c0)
    from state_inv_new[OF i r a] show ?thesis by (simp add: 2(3) step_cell_def c0)
  qed
qed

lemma dp_loop_inv:
  "dp_loop sv mt mc xs dp = Inr dp' \<Longrightarrow> \<forall>c \<in> cells dp. state_inv (sv_skills_db sv) seen mt mc c \<Longrightarrow>
     \<forall>c \<in> cells dp'. state_inv (sv_skills_db sv) (seen @ xs) mt mc c"
proof (induction xs arbitrary: dp seen)
  case Nil
  then show ?case by simp
next
  case (Cons x xs)
  from Cons.prems(1) obtain r where r: "map_of (sv_skills_db sv) x = Some r"
    and l: "dp_loop sv mt mc xs (dp_step sv mt mc x r dp) = Inr dp'"
    by (auto simp: getitem_def split: option.splits)
  from Cons.IH[OF l dp_step_inv[OF r Cons.prems(2)]] show ?case by simp
qed

lemma dp_loop_total: "known (sv_skills_db sv) xs \<Longrightarrow> \<exists>dp'. dp_loop sv mt mc xs dp = Inr dp'"
  by (induction xs arbitrary: dp) (auto simp: getitem_def)

lemma initial_table_inv:
  "\<forall>c \<in> cells [((0, 0), [\<lparr>valor = 0, skills = {}, path = []\<rparr>])]. state_inv db [] mt mc c"
  by (simp add: cells_Cons state_inv_def)

lemma pick_best_fold:
  "snd (fold (pick_best tgt) sts b) = Some st \<Longrightarrow>
     (st \<in> set sts \<and> tgt \<in> skills st) \<or> snd b = Some st"
proof (induction sts arbitrary: b)
  case Nil
  then show ?case by simp
next
  case (Cons s sts)
  from Cons.prems have "snd (fold (pick_best tgt) sts (pick_best tgt s b)) = Some st" by simp
  from Cons.IH[OF this] show ?case by (auto simp: pick_best_def split: if_splits)
qed

lemma concat_cells: "st \<in> set (concat (map snd dp)) \<Longrightarrow> \<exists>k. (k, st) \<in> cells dp"
  unfolding cells_def by fastforce

subsection \<open>Topological order, required skills and the minimum path\<close>

lemma release_dependents_queue:
  "release_dependents db current ss st = Inr st' \<Longrightarrow> set (snd st') \<subseteq> set (snd st) \<union> set ss"
proof (induction ss arbitrary: st)
  case Nil
  then show ?case by simp
next
  case (Cons skill rest)
  from Cons.prems obtain r where r: "getitem db skill = Inr r" by (auto split: sum.splits)
  show ?case
  proof (cases "current \<in> set (Pre_Reqs r)")
    case True
    let ?d = "(fst st)(skill := fst st skill - 1)"
    let ?q = "if ?d skill = 0 then snd st @ [skill] else snd st"
    from Cons.prems r True have "release_dependents db current rest (?d, ?q) = Inr st'"
      by (simp add: Let_def)
    from Cons.IH[OF this] show ?thesis by (auto split: if_splits)
  next
    case False
    with Cons.prems r have "release_dependents db current rest st = Inr st'" by simp
    from Cons.IH[OF this] show ?thesis by auto
  qed
qed

lemma kahn_loop_subset:
  "kahn_loop db rs in_degree queue result = Inr topo \<Longrightarrow>
     set topo \<subseteq> set result \<union> set queue \<union> set rs"
proof (induction db rs in_degree queue result rule: kahn_loop.induct)
  case (1 db rs in_degree result)
  then show ?case by simp
next
  case (2 db rs in_degree current queue result)
  from "2.prems" obtain st where st: "release_dependents db current rs (in_degree, queue) = Inr st"
    and k: "kahn_loop db rs (fst st) (snd st) (result @ [current]) = Inr topo"
    by (auto split: sum.splits)
  from "2.IH"[OF st k] release_dependents_queue[OF st] show ?case by auto
qed

lemma topological_sort_subset:
  "topological_sort sv = Inr topo \<Longrightarrow> set topo \<subseteq> set (required_skills sv)"
  by (auto simp: topological_sort_def Let_def split: sum.splits dest!: kahn_loop_subset)

lemma topological_sort_fields:
  "topological_sort (sv\<lparr>min_feasible_time := a, min_feasible_complexity := b\<rparr>) = topological_sort sv"
  by (simp add: topological_sort_def)

text \<open>Everything the worklist collects is in the database and reachable from the target.\<close>

lemma get_required_loop_inv:
  "get_required_loop db required to_process = Inr rs \<Longrightarrow>
   known db required \<Longrightarrow>
   set required \<union> set to_process \<subseteq> (prereq_rel db)\<^sup>* `` {tgt} \<Longrightarrow>
   known db rs \<and> set rs \<subseteq> (prereq_rel db)\<^sup>* `` {tgt}"
proof (induction db required to_process rule: get_required_loop.induct)
  case (1 db required to_process)
  show ?case
  proof (cases "to_process = []")
    case True
    with "1.prems" show ?thesis by (simp add: get_required_loop.simps)
  next
    case False
    define skill where "skill = last to_process"
    define rest where "rest = butlast to_process"
    have tp: "to_process = rest @ [skill]" using False by (simp add: skill_def rest_def)
    show ?thesis
    proof (cases "skill \<in> set required")
      case True
      with False "1.prems"(1) have l: "get_required_loop db required rest = Inr rs"
        by (simp add: get_required_loop.simps[of db required to_process] skill_def rest_def Let_def)
      have sub: "set required \<union> set rest \<subseteq> (prereq_rel db)\<^sup>* `` {tgt}"
        using "1.prems"(3) tp by auto
      show ?thesis
        using "1.IH"(1)[of skill rest] False skill_def rest_def True l "1.prems"(2) sub by blast
    next
      case nin: False
      with False "1.prems"(1) obtain r where r: "getitem db skill = Inr r"
        and l: "get_required_loop db (required @ [skill]) (rest @ Pre_Reqs r) = Inr rs"
        by (auto simp: get_required_loop.simps[of db required to_process] skill_def rest_def Let_def
            split: sum.splits)
      from r have m: "map_of db skill = Some r" by (auto simp: getitem_def split: option.splits)
      have k: "known db (required @ [skill])" using "1.prems"(2) m by simp
      have sk: "skill \<in> (prereq_rel db)\<^sup>* `` {tgt}" using "1.prems"(3) tp by auto
      have "set (Pre_Reqs r) \<subseteq> (prereq_rel db)\<^sup>* `` {tgt}"
      proof
        fix p assume "p \<in> set (Pre_Reqs r)"
        with m have "(skill, p) \<in> prereq_rel db" by (auto simp: prereq_rel_def)
        with sk show "p \<in> (prereq_rel db)\<^sup>* `` {tgt}" by (auto intro: rtrancl_into_rtrancl)
      qed
      then have sub: "set (required @ [skill]) \<union> set (rest @ Pre_Reqs r) \<subseteq> (prereq_rel db)\<^sup>* `` {tgt}"
        using "1.prems"(3) tp by auto
      show ?thesis
        using "1.IH"(2)[of skill rest r] False skill_def rest_def nin r k sub l by blast
    qed
  qed
qed

lemma minimum_path_loop_sum:
  "minimum_path_loop db xs acquired tt tc = Inr m \<Longrightarrow>
     fst m = tt + sum (fld db Tempo) (set xs - acquired)
     \<and> snd m = tc + sum (fld db Complexidade) (set xs - acquired)"
proof (induction xs arbitrary: acquired tt tc)
  case Nil
  then show ?case by auto
next
  case (Cons x xs)
  show ?case
  proof (cases "x \<in> acquired")
    case True
    with Cons.prems have "minimum_path_loop db xs acquired tt tc = Inr m" by simp
    from Cons.IH[OF this] True show ?thesis by (simp add: insert_Diff_if)
  next
    case False
    with Cons.prems obtain r where r: "map_of db x = Some r"
      and l: "minimum_path_loop db xs (insert x acquired) (tt + Tempo r) (tc + Complexidade r) = Inr m"
      by (auto simp: getitem_def split: option.splits)
    have eq: "set (x # xs) - acquired = insert x (set xs - insert x acquired)" using False by auto
    have "sum f (set (x # xs) - acquired) = f x + sum f (set xs - insert x acquired)" for f :: "string \<Rightarrow> int"
      unfolding eq by (rule sum.insert) auto
    with Cons.IH[OF l] show ?thesis by (simp add: fld_Some[OF r])
  qed
qed

subsection \<open>The constructor and a successful run\<close>

lemma known_subset: "known db xs \<Longrightarrow> set ys \<subseteq> set xs \<Longrightarrow> known db ys"
  unfolding known_def by blast

lemma init_solver_facts:
  assumes i: "init_solver iter db tgt cap = Inr sv" and perm: "\<forall>xs. mset (iter xs) = mset xs"
  obtains topo where "sv_skills_db sv = db" "target sv = tgt" "max_states_per_cell sv = cap"
    "known db (required_skills sv)"
    "set (required_skills sv) \<subseteq> (prereq_rel db)\<^sup>* `` {tgt}"
    "topological_sort sv = Inr topo"
    "min_feasible_time sv = sum (fld db Tempo) (set topo)"
    "min_feasible_complexity sv = sum (fld db Complexidade) (set topo)"
proof -
  from i obtain rs m where rs: "get_required_skills iter db tgt = Inr rs"
    and m: "calculate_minimum_path \<lparr>sv_skills_db = db, target = tgt, max_states_per_cell = cap,
              required_skills = rs, min_feasible_time = 0, min_feasible_complexity = 0\<rparr> = Inr m"
    and sv: "sv = \<lparr>sv_skills_db = db, target = tgt, max_states_per_cell = cap,
              required_skills = rs, min_feasible_time = fst m, min_feasible_complexity = snd m\<rparr>"
    by (auto simp: init_solver_def Let_def split: sum.splits)
  let ?sv0 = "\<lparr>sv_skills_db = db, target = tgt, max_states_per_cell = cap,
              required_skills = rs, min_feasible_time = 0, min_feasible_complexity = 0\<rparr>"
  from rs obtain req where req: "get_required_loop db [] [tgt] = Inr req" and rq: "rs = iter req"
    by (auto simp: get_required_skills_def split: sum.splits)
  from get_required_loop_inv[OF req, of tgt]
  have "known db req" "set req \<subseteq> (prereq_rel db)\<^sup>* `` {tgt}" by auto
  moreover have "set rs = set req" using perm rq by (metis mset_eq_setD)
  ultimately have k: "known db rs" and reach: "set rs \<subseteq> (prereq_rel db)\<^sup>* `` {tgt}"
    by (auto simp: known_def)
  from m obtain topo where t0: "topological_sort ?sv0 = Inr topo"
    and l: "minimum_path_loop db topo {} 0 0 = Inr m"
    by (auto simp: calculate_minimum_path_def split: sum.splits)
  have t: "topological_sort sv = Inr topo" using t0 by (simp add: sv topological_sort_def)
  from minimum_path_loop_sum[OF l]
  have "fst m = sum (fld db Tempo) (set topo)" "snd m = sum (fld db Complexidade) (set topo)"
    by simp_all
  then show ?thesis using that[of topo] k reach t by (simp add: sv)
qed

text \<open>What a successful run of the DP returns.\<close>

lemma solve_success_state:
  assumes "solve_deterministic sv mt mc = Inr (PathFound p v t c)"
  obtains topo key st where "topological_sort sv = Inr topo"
    "state_inv (sv_skills_db sv) topo mt mc (key, st)" "target sv \<in> skills st"
    "p = path st" "v = valor st"
    "t = sum_list (map (fld (sv_skills_db sv) Tempo) p)"
    "c = sum_list (map (fld (sv_skills_db sv) Complexidade) p)"
proof -
  let ?db = "sv_skills_db sv"
  from assms obtain topo dp st where topo: "topological_sort sv = Inr topo"
    and dp: "dp_loop sv mt mc topo [((0, 0), [\<lparr>valor = 0, skills = {}, path = []\<rparr>])] = Inr dp"
    and best: "snd (fold (pick_best (target sv)) (concat (map snd dp)) (- 1, None)) = Some st"
    and p: "p = path st" and v: "v = valor st"
    and t: "sum_field ?db Tempo (path st) = Inr t"
    and c: "sum_field ?db Complexidade (path st) = Inr c"
    by (auto simp: solve_deterministic_def split: sum.splits option.splits)
  from pick_best_fold[OF best] have mem: "st \<in> set (concat (map snd dp))"
    and tg: "target sv \<in> skills st" by auto
  from concat_cells[OF mem] obtain key where key: "(key, st) \<in> cells dp" by blast
  from dp_loop_inv[OF dp initial_table_inv] key
  have inv: "state_inv ?db topo mt mc (key, st)" by auto
  then have "prereqs_before ?db {} (path st)" by (simp add: state_inv_def)
  then have k: "known ?db (path st)" by (rule prereqs_before_known)
  from t c have "t = sum_list (map (fld ?db Tempo) p)" "c = sum_list (map (fld ?db Complexidade) p)"
    by (simp_all add: sum_field_known[OF k] p)
  with that[OF topo inv tg p v] show ?thesis by blast
qed

lemma state_closed:
  assumes inv: "state_inv db seen mt mc (key, st)" and tg: "tgt \<in> skills st"
  shows "(prereq_rel db)\<^sup>* `` {tgt} \<subseteq> set (path st)"
proof -
  from inv have s: "skills st = set (path st)" and pb: "prereqs_before db {} (path st)"
    by (simp_all add: state_inv_def)
  have "y \<in> set (path st)" if "(tgt, y) \<in> (prereq_rel db)\<^sup>*" for y
    using that
  proof (induction rule: rtrancl_induct)
    case base
    then show ?case using tg s by simp
  next
    case (step y z)
    from step(2) obtain r where r: "map_of db y = Some r" "z \<in> set (Pre_Reqs r)"
      by (auto simp: prereq_rel_def)
    from prereqs_before_closed[OF pb step(3) r(1)] r(2) show ?case by auto
  qed
  then show ?thesis by auto
qed

text \<open>A successful run uses exactly the minimum time and complexity.\<close>

lemma success_uses_minimum:
  assumes i: "init_solver iter db tgt cap = Inr sv" and perm: "\<forall>xs. mset (iter xs) = mset xs"
    and s: "solve_deterministic sv mt mc = Inr (PathFound p v t c)"
  shows "t = min_feasible_time sv \<and> c = min_feasible_complexity sv
     \<and> min_feasible_time sv \<le> mt \<and> min_feasible_complexity sv \<le> mc"
proof -
  from i perm obtain topo where f: "sv_skills_db sv = db" "target sv = tgt"
    "set (required_skills sv) \<subseteq> (prereq_rel db)\<^sup>* `` {tgt}"
    "topological_sort sv = Inr topo"
    "min_feasible_time sv = sum (fld db Tempo) (set topo)"
    "min_feasible_complexity sv = sum (fld db Complexidade) (set topo)"
    by (rule init_solver_facts)
  from s obtain topo' key st where g: "topological_sort sv = Inr topo'"
    "state_inv (sv_skills_db sv) topo' mt mc (key, st)" "target sv \<in> skills st"
    "p = path st"
    "t = sum_list (map (fld (sv_skills_db sv) Tempo) p)"
    "c = sum_list (map (fld (sv_skills_db sv) Complexidade) p)"
    by (rule solve_success_state)
  from f(4) g(1) have tt: "topo' = topo" by simp
  note inv = g(2)[unfolded tt f(1)]
  from inv have d: "distinct (path st)" and sub: "set (path st) \<subseteq> set topo"
    and kt: "fst key = sum_list (map (fld db Tempo) (path st))"
    and kc: "snd key = sum_list (map (fld db Complexidade) (path st))"
    and le: "path st = [] \<or> (fst key \<le> mt \<and> snd key \<le> mc)"
    and sk: "skills st = set (path st)"
    unfolding state_inv_def by auto
  from state_closed[OF inv] g(3) f(2) have "(prereq_rel db)\<^sup>* `` {tgt} \<subseteq> set (path st)" by simp
  with topological_sort_subset[OF f(4)] f(3) sub have eq: "set (path st) = set topo" by blast
  have ne: "path st \<noteq> []" using g(3) sk by auto
  have st: "sum_list (map h (path st)) = sum h (set topo)" for h :: "string \<Rightarrow> int"
    using sum_list_distinct_conv_sum_set[OF d, of h] eq by simp
  show ?thesis using le ne kt kc f(5,6) g(4,5,6) f(1) by (simp add: st)
qed

lemma solve_deterministic_total:
  assumes i: "init_solver iter db tgt cap = Inr sv" and perm: "\<forall>xs. mset (iter xs) = mset xs"
  shows "\<exists>r. solve_deterministic sv mt mc = Inr r
            \<and> (r = Infeasible (infeasible_message tgt mt mc) \<or> (\<exists>p v t c. r = PathFound p v t c))"
proof -
  from i perm obtain topo where f: "sv_skills_db sv = db" "target sv = tgt"
    "known db (required_skills sv)" "topological_sort sv = Inr topo"
    by (rule init_solver_facts)
  have kt: "known (sv_skills_db sv) topo"
    using known_subset[OF f(3) topological_sort_subset[OF f(4)]] f(1) by simp
  from dp_loop_total[OF kt] obtain dp where
    dp: "dp_loop sv mt mc topo [((0, 0), [\<lparr>valor = 0, skills = {}, path = []\<rparr>])] = Inr dp"
    by blast
  show ?thesis
  proof (cases "snd (fold (pick_best (target sv)) (concat (map snd dp)) (- 1, None))")
    case None
    then show ?thesis by (simp add: solve_deterministic_def f(4) dp f(2))
  next
    case (Some st)
    from pick_best_fold[OF Some] have mem: "st \<in> set (concat (map snd dp))" by auto
    from concat_cells[OF mem] obtain key where key: "(key, st) \<in> cells dp" by blast
    from dp_loop_inv[OF dp initial_table_inv] key
    have "state_inv (sv_skills_db sv) topo mt mc (key, st)" by auto
    then have "prereqs_before (sv_skills_db sv) {} (path st)" by (simp add: state_inv_def)
    then have k: "known (sv_skills_db sv) (path st)" by (rule prereqs_before_known)
    show ?thesis by (simp add: solve_deterministic_def f(4) dp Some sum_field_known[OF k])
  qed
qed

subsection \<open>Concrete runs\<close>

lemma example_required: "get_required_skills (\<lambda>xs. xs) example_db ''S1'' = Inr [''S1'', ''H2'', ''H1'']"
  by (simp add: get_required_skills_def get_required_loop.simps example_db_def getitem_def)

lemma example_topo: "topological_sort example_solver = Inr [''H2'', ''H1'', ''S1'']"
  by (simp add: topological_sort_def example_solver_def example_db_def getitem_def)

lemma example_topo0:
  "topological_sort \<lparr>sv_skills_db = example_db, target = ''S1'', max_states_per_cell = 50,
      required_skills = [''S1'', ''H2'', ''H1''], min_feasible_time = 0,
      min_feasible_complexity = 0\<rparr> = Inr [''H2'', ''H1'', ''S1'']"
  by (simp add: topological_sort_def example_db_def getitem_def)

lemma example_init: "init_solver (\<lambda>xs. xs) example_db ''S1'' 50 = Inr example_solver"
  by (simp add: init_solver_def example_required calculate_minimum_path_def example_topo0
      example_solver_def) (simp add: example_db_def getitem_def)

lemma example_solve:
  "solve_deterministic example_solver 200 10 = Inr (PathFound [''H2'', ''H1'', ''S1''] 40 160 10)"
  by (simp add: solve_deterministic_def example_topo)
     (simp add: example_solver_def example_db_def getitem_def dp_step_def transition_def
       prune_dominated_states_def pick_best_def)

lemma single_init: "init_solver (\<lambda>xs. xs) (single_db t) ''T'' 50 = Inr (single_solver t)"
  by (simp add: init_solver_def get_required_skills_def get_required_loop.simps single_db_def
      getitem_def calculate_minimum_path_def topological_sort_def single_solver_def)

lemma single_solve:
  "3 < t \<Longrightarrow> solve_deterministic (single_solver t) 3 3 =
     Inr (Infeasible (''Imposs'' @ [CHR 0xC3, CHR 0xAD] @ ''vel atingir T com T''
       @ [CHR 0xE2, CHR 0x89, CHR 0xA4] @ ''3, C'' @ [CHR 0xE2, CHR 0x89, CHR 0xA4] @ ''3''))"
  by (simp add: solve_deterministic_def topological_sort_def single_solver_def single_db_def
      getitem_def dp_step_def transition_def prune_dominated_states_def pick_best_def
      infeasible_message_def str_int_def digits.simps)

section \<open>Facts about the validator and the recommender\<close>

lemma validate_graph_verbose_halts:
  "check_orphan_prereqs db \<noteq> [] \<Longrightarrow>
     validate_graph iter limit db True =
       Inr (False, initial_report\<lparr>valid := False, orphan_nodes := check_orphan_prereqs db\<rparr>)"
  by (simp add: validate_graph_def)

lemma map_of_dict_set_same: "map_of (dict_set k v tbl) k = Some v"
  by (induction tbl) auto

lemma cell_at_dict_set_same: "cell_at (dict_set t cell dp) t = cell"
  by (simp add: cell_at_def map_of_dict_set_same)

lemma py_int_whole_years: "0 \<le> n \<Longrightarrow> py_int (real_of_int n / 2000) = n div 2000"
proof -
  assume "0 \<le> n"
  then have "0 \<le> real_of_int n / 2000" by simp
  moreover have "\<lfloor>real_of_int n / real_of_int 2000\<rfloor> = n div 2000"
    by (rule floor_divide_of_int_eq)
  ultimately show ?thesis by (simp add: py_int_def)
qed

lemma long_course_expansion:
  "dp_expand (init_recommender long_course_db) 10000 0 ({}, (0, [])) ''X'' [(0, [({}, (0, []))])]
     = Inr [(0, [({}, (0, []))]), (1000, [({''X''}, (10, [''X'']))])]"
  by (simp add: dp_expand_def init_recommender_def long_course_db_def getitem_def
      calculate_expected_value_def scenario_sum_def synergy_bonus_def define_market_scenarios_def
      py_int_def cell_at_def)

lemma long_course_undiscounted:
  "scenario_sum (init_recommender long_course_db) ''X''
     \<lparr>Valor = 10, Tempo = 1000, Complexidade = 1, Pre_Reqs = []\<rparr> {} = 10"
  by (simp add: init_recommender_def scenario_sum_def synergy_bonus_def define_market_scenarios_def)

lemma half_year_discount_not_one: "(95 / 100 :: real) powr (1000 / 2000) \<noteq> 1"
proof -
  have "(95 / 100 :: real) powr (1000 / 2000) = sqrt (95 / 100)"
    using powr_half_sqrt[of "95 / 100 :: real"] by simp
  moreover have "sqrt (95 / 100 :: real) \<noteq> 1" by simp
  ultimately show ?thesis by simp
qed

section \<open>Claims about the subset optimizer\<close>

subsection \<open>Evaluation on the literal data\<close>

lemma counterexample_init:
  "init_optimizer counterexample_db [''A'', ''B'', ''C''] m =
     Inr \<lparr>opt_skills_db = counterexample_db, basic_skills = [''A'', ''B'', ''C''], min_adapt = m\<rparr>"
  by (simp add: init_optimizer_def counterexample_db_def getitem_def)

lemma counterexample_times_positive:
  "\<forall>s \<in> set [''A'', ''B'', ''C'']. \<forall>r. map_of counterexample_db s = Some r \<longrightarrow>
      0 < Valor r \<and> 0 < Tempo r"
  by (simp add: counterexample_db_def)

lemma counterexample_greedy:
  "greedy_solution counterexample_optimizer =
     Inr \<lparr>algorithm = greedy_label, selected = [''C'', ''B''], total_value = 20,
          total_time = 11, num_skills = 2\<rparr>"
  by (simp add: greedy_solution_def counterexample_optimizer_def counterexample_db_def
      getitem_def sorted_desc_def)

lemma counterexample_dp:
  "optimal_solution_dp counterexample_optimizer =
     Inr (Some \<lparr>algorithm = dp_label, selected = [''A''], total_value = 16,
                total_time = 10, num_skills = 1\<rparr>)"
  by (simp add: optimal_solution_dp_def counterexample_optimizer_def counterexample_db_def
      getitem_def relax_value_def dp_pick_def)

subsection \<open>C5\<close>

text \<open>
  Claim C5. On the literal input \<open>A(16, 10)\<close>, \<open>B(12, 7)\<close>, \<open>C(8, 4)\<close> with threshold
  16, the greedy solver selects \<open>C\<close> then \<open>B\<close> with total time 11 (and value 20), and
  the exact DP selects \<open>A\<close> alone with total time 10.
\<close>

theorem C5_literal_counterexample:
  "greedy_solution counterexample_optimizer =
     Inr \<lparr>algorithm = greedy_label, selected = [''C'', ''B''], total_value = 20,
          total_time = 11, num_skills = 2\<rparr>
   \<and> optimal_solution_dp counterexample_optimizer =
     Inr (Some \<lparr>algorithm = dp_label, selected = [''A''], total_value = 16,
                total_time = 10, num_skills = 1\<rparr>)"
  using counterexample_greedy counterexample_dp by (rule conjI)

subsection \<open>C3\<close>

text \<open>
  Claim C3. Whenever the exact DP returns a solution, its total time is at most the total
  time of the greedy selection on the same optimizer. The candidates are skill nodes of
  the data model, whose time cost is strictly positive; under that reading the greedy
  solver returns too (no division by zero) and the bound holds.
\<close>

theorem C3_dp_not_slower_than_greedy:
  assumes i: "init_optimizer db basic m = Inr opt"
    and pos: "\<forall>s \<in> set basic. \<forall>r. map_of db s = Some r \<longrightarrow> 0 < Tempo r"
    and d: "optimal_solution_dp opt = Inr (Some d)"
  shows "\<exists>g. greedy_solution opt = Inr g \<and> total_time d \<le> total_time g"
proof -
  note o = init_optimizer_known[OF i]
  have k: "known (opt_skills_db opt) (basic_skills opt)" using o by simp
  have p: "\<And>s. s \<in> set basic \<Longrightarrow> 0 < fld db Tempo s"
    using fld_pos[OF o(4), where f=Tempo and P="\<lambda>x. 0 < x"] pos by blast
  then have nz: "\<forall>s \<in> set (basic_skills opt). fld (opt_skills_db opt) Tempo s \<noteq> 0"
    unfolding o by force
  have nn: "\<forall>s \<in># mset basic. 0 \<le> fld db Tempo s" using p by force
  note D = dp_solution_Some[OF k d]
  from k nz show ?thesis
  proof (rule greedy_solution_char)
    fix g
    assume g: "greedy_solution opt = Inr g"
      "mset (selected g) \<subseteq># mset (basic_skills opt)"
      "total_value g = vsum (opt_skills_db opt) Valor (mset (selected g))"
      "total_time g = vsum (opt_skills_db opt) Tempo (mset (selected g))"
      "min_adapt opt \<le> total_value g \<or> mset (selected g) = mset (basic_skills opt)"
    from g(5) have "total_time d \<le> total_time g"
    proof
      assume "min_adapt opt \<le> total_value g"
      with D(5)[OF g(2)] g(3,4) show ?thesis by simp
    next
      assume all: "mset (selected g) = mset (basic_skills opt)"
      have "vsum db Tempo (mset (selected d)) \<le> vsum db Tempo (mset basic)"
        using vsum_mono[OF subseq_mset_subset[OF D(1)[unfolded o]] nn] .
      then show ?thesis using D(3) g(4) all by (simp add: o)
    qed
    with g(1) show ?thesis by blast
  qed
qed

theorem C3_dp_not_slower_than_greedy_witness:
  "init_optimizer counterexample_db [''A'', ''B'', ''C''] 16 = Inr counterexample_optimizer
   \<and> optimal_solution_dp counterexample_optimizer =
       Inr (Some \<lparr>algorithm = dp_label, selected = [''A''], total_value = 16,
                  total_time = 10, num_skills = 1\<rparr>)
   \<and> (\<exists>g. greedy_solution counterexample_optimizer = Inr g \<and> 10 \<le> total_time g)"
proof -
  have h1: "init_optimizer counterexample_db [''A'', ''B'', ''C''] 16 = Inr counterexample_optimizer"
    by (simp add: counterexample_init counterexample_optimizer_def)
  have h2: "\<forall>s \<in> set [''A'', ''B'', ''C'']. \<forall>r. map_of counterexample_db s = Some r \<longrightarrow> 0 < Tempo r"
    using counterexample_times_positive by blast
  note h3 = counterexample_dp
  from C3_dp_not_slower_than_greedy[OF h1 h2 h3]
  have "\<exists>g. greedy_solution counterexample_optimizer = Inr g \<and> 10 \<le> total_time g" by simp
  with h1 h3 show ?thesis by blast
qed

subsection \<open>C10\<close>

text \<open>
  Claim C10. When the summed value of all candidates is below the threshold, the greedy
  solver still returns an ordinary result record: it contains every candidate, its
  total value is that sum, below the threshold, and the record has no failure field;
  the exact DP returns \<open>None\<close> on the same optimizer. The candidates are skill nodes
  with non-negative value and non-zero time cost, as the data model has them.
\<close>

theorem C10_greedy_returns_all_below_threshold:
  assumes i: "init_optimizer db basic m = Inr opt"
    and pos: "\<forall>s \<in> set basic. \<forall>r. map_of db s = Some r \<longrightarrow> 0 \<le> Valor r \<and> Tempo r \<noteq> 0"
    and tv: "sum_field db Valor basic = Inr tv" and low: "tv < m"
  shows "\<exists>g. greedy_solution opt = Inr g \<and> mset (selected g) = mset basic
            \<and> total_value g = tv \<and> total_value g < m
            \<and> optimal_solution_dp opt = Inr None"
proof -
  note o = init_optimizer_known[OF i]
  have k: "known (opt_skills_db opt) (basic_skills opt)" using o by simp
  have nz: "\<forall>s \<in> set (basic_skills opt). fld (opt_skills_db opt) Tempo s \<noteq> 0"
    unfolding o using fld_pos[OF o(4), where f=Tempo and P="\<lambda>x. x \<noteq> 0"] pos by blast
  have nn: "\<forall>s \<in># mset basic. 0 \<le> fld db Valor s"
    using fld_pos[OF o(4), where f=Valor and P="\<lambda>x. 0 \<le> x"] pos by force
  have tv': "tv = vsum db Valor (mset basic)"
    using tv by (simp add: sum_field_known[OF o(4)] vsum_mset)
  have below: "\<And>M. M \<subseteq># mset basic \<Longrightarrow> vsum db Valor M < m"
    using vsum_mono[OF _ nn] low tv' by fastforce
  have dp: "optimal_solution_dp opt = Inr None"
  proof (rule dp_solution_None[OF k])
    show "\<forall>c. subseq c (basic_skills opt) \<longrightarrow> vsum (opt_skills_db opt) Valor (mset c) < min_adapt opt"
      unfolding o using below subseq_mset_subset by blast
  qed
  from k nz show ?thesis
  proof (rule greedy_solution_char)
    fix g
    assume g: "greedy_solution opt = Inr g"
      "mset (selected g) \<subseteq># mset (basic_skills opt)"
      "total_value g = vsum (opt_skills_db opt) Valor (mset (selected g))"
      "total_time g = vsum (opt_skills_db opt) Tempo (mset (selected g))"
      "min_adapt opt \<le> total_value g \<or> mset (selected g) = mset (basic_skills opt)"
    have lt: "total_value g < m" using below[OF g(2)[unfolded o]] g(3) by (simp add: o)
    with g(5) have all: "mset (selected g) = mset basic" by (simp add: o)
    have "total_value g = tv" using g(3) all by (simp add: o tv')
    with g(1) all lt dp show ?thesis by blast
  qed
qed

theorem C10_greedy_returns_all_below_threshold_witness:
  "init_optimizer counterexample_db [''A'', ''B'', ''C''] 100 =
     Inr \<lparr>opt_skills_db = counterexample_db, basic_skills = [''A'', ''B'', ''C''], min_adapt = 100\<rparr>
   \<and> sum_field counterexample_db Valor [''A'', ''B'', ''C''] = Inr 36 \<and> (36::int) < 100
   \<and> (\<exists>g. greedy_solution \<lparr>opt_skills_db = counterexample_db,
               basic_skills = [''A'', ''B'', ''C''], min_adapt = 100\<rparr> = Inr g
          \<and> mset (selected g) = mset [''A'', ''B'', ''C''] \<and> total_value g = 36
          \<and> total_value g < 100
          \<and> optimal_solution_dp \<lparr>opt_skills_db = counterexample_db,
               basic_skills = [''A'', ''B'', ''C''], min_adapt = 100\<rparr> = Inr None)"
proof -
  note h1 = counterexample_init[of 100]
  have h2: "\<forall>s \<in> set [''A'', ''B'', ''C'']. \<forall>r. map_of counterexample_db s = Some r \<longrightarrow>
         0 \<le> Valor r \<and> Tempo r \<noteq> 0"
    using counterexample_times_positive by force
  have h3: "sum_field counterexample_db Valor [''A'', ''B'', ''C''] = Inr 36"
    by (simp add: counterexample_db_def getitem_def)
  have h4: "(36::int) < 100" by simp
  from C10_greedy_returns_all_below_threshold[OF h1 h2 h3 h4] h1 h3 h4
  show ?thesis by blast
qed

subsection \<open>C4\<close>

text \<open>
  Claim C4 as stated (for every threshold, the DP and the brute force agree) fails at
  threshold 0: the DP table starts with the empty selection at value 0, which meets a
  threshold of 0 at time 0, while the brute force enumerates sizes from 1 upwards and
  so returns the cheapest single candidate.
\<close>

theorem C4_threshold_zero_counterexample:
  "optimal_solution_dp \<lparr>opt_skills_db = counterexample_db, basic_skills = [''A''], min_adapt = 0\<rparr> =
     Inr (Some \<lparr>algorithm = dp_label, selected = [], total_value = 0, total_time = 0,
                num_skills = 0\<rparr>)
   \<and> optimal_solution_bruteforce
       \<lparr>opt_skills_db = counterexample_db, basic_skills = [''A''], min_adapt = 0\<rparr> =
     Inr (Some \<lparr>algorithm = bf_label, selected = [''A''], total_value = 16, total_time = 10,
                num_skills = 1\<rparr>)"
proof
  show "optimal_solution_dp \<lparr>opt_skills_db = counterexample_db, basic_skills = [''A''], min_adapt = 0\<rparr> =
     Inr (Some \<lparr>algorithm = dp_label, selected = [], total_value = 0, total_time = 0,
                num_skills = 0\<rparr>)"
    by (simp add: optimal_solution_dp_def counterexample_db_def getitem_def relax_value_def
        dp_pick_def)
  show "optimal_solution_bruteforce
       \<lparr>opt_skills_db = counterexample_db, basic_skills = [''A''], min_adapt = 0\<rparr> =
     Inr (Some \<lparr>algorithm = bf_label, selected = [''A''], total_value = 16, total_time = 10,
                num_skills = 1\<rparr>)"
    by (simp add: optimal_solution_bruteforce_def counterexample_db_def getitem_def bf_try_def)
qed

text \<open>
  Claim C4, amended. For every optimizer the constructor accepts and every threshold
  above 0, both solvers return without raising, and they agree: both \<open>None\<close>, or both
  a solution with the same total time. That time is minimal: no selection of candidates
  (in list order) whose value meets the threshold takes less time.
\<close>

theorem C4_dp_agrees_with_bruteforce:
  assumes i: "init_optimizer db basic m = Inr opt" and pos: "0 < m"
  shows "\<exists>a b. optimal_solution_dp opt = Inr a \<and> optimal_solution_bruteforce opt = Inr b
           \<and> map_option total_time a = map_option total_time b
           \<and> (\<forall>r c vc tc. a = Some r \<and> subseq c basic \<and> sum_field db Valor c = Inr vc \<and> m \<le> vc
                 \<and> sum_field db Tempo c = Inr tc \<longrightarrow> total_time r \<le> tc)"
proof -
  note o = init_optimizer_known[OF i]
  have k: "known (opt_skills_db opt) (basic_skills opt)" using o by simp
  from dp_solution_total[OF k] obtain a where a: "optimal_solution_dp opt = Inr a" by blast
  have minimal: "\<forall>r c vc tc. a = Some r \<and> subseq c basic \<and> sum_field db Valor c = Inr vc \<and> m \<le> vc
                 \<and> sum_field db Tempo c = Inr tc \<longrightarrow> total_time r \<le> tc"
  proof (intro allI impI, elim conjE)
    fix r c vc tc
    assume h: "a = Some r" "subseq c basic" "sum_field db Valor c = Inr vc" "m \<le> vc"
      "sum_field db Tempo c = Inr tc"
    have kc: "known db c" using known_subseq[OF _ h(2)] o(4) by blast
    from h(3,5) have vc: "vc = vsum db Valor (mset c)" and tc: "tc = vsum db Tempo (mset c)"
      by (simp_all add: sum_field_known[OF kc] vsum_mset)
    from a h(1) have d: "optimal_solution_dp opt = Inr (Some r)" by simp
    from dp_solution_Some(5)[OF k d, of "mset c"] subseq_mset_subset[OF h(2)] h(4)
    show "total_time r \<le> tc" by (simp add: o vc tc)
  qed
  from k show ?thesis
  proof (cases rule: bf_solution_char)
    case none
    have "\<forall>c. subseq c (basic_skills opt) \<longrightarrow> vsum (opt_skills_db opt) Valor (mset c) < min_adapt opt"
    proof (intro allI impI)
      fix c assume s: "subseq c (basic_skills opt)"
      show "vsum (opt_skills_db opt) Valor (mset c) < min_adapt opt"
      proof (cases "c = []")
        case True
        then show ?thesis using pos o(3) by simp
      next
        case False
        from none(2)[OF s False] show ?thesis .
      qed
    qed
    from dp_solution_None[OF k this] a have "a = None" by simp
    with a none(1) minimal show ?thesis by simp
  next
    case (some b)
    have "\<not> (\<forall>c. subseq c (basic_skills opt) \<longrightarrow>
        vsum (opt_skills_db opt) Valor (mset c) < min_adapt opt)"
      using some(2,4) by force
    have "a \<noteq> None"
    proof
      assume "a = None"
      with a have n: "optimal_solution_dp opt = Inr None" by simp
      from k obtain tbl where t: "value_dp_loop (opt_skills_db opt) (basic_skills opt) [(0, (0, []))] = Inr tbl"
        and inv: "dp_inv (opt_skills_db opt) (basic_skills opt) tbl" by (rule dp_table)
      from n have f: "fold (dp_pick (min_adapt opt)) tbl None = None"
        by (auto simp: optimal_solution_dp_def t split: option.splits)
      from dp_inv_complete[OF inv subseq_mset_subset[OF some(2)]] obtain t' sk where
        "(vsum (opt_skills_db opt) Valor (mset (selected b)), (t', sk)) \<in> set tbl"
        unfolding covers_def by blast
      with f[unfolded fold_pick_None] have "vsum (opt_skills_db opt) Valor (mset (selected b)) < min_adapt opt"
        by force
      with some(4) show False by simp
    qed
    then obtain d where ad: "a = Some d" by blast
    with a have d: "optimal_solution_dp opt = Inr (Some d)" by simp
    note D = dp_solution_Some[OF k d]
    have "total_time d \<le> total_time b"
      using D(5)[OF subseq_mset_subset[OF some(2)] some(4)] some(5) by simp
    moreover have "total_time b \<le> total_time d"
    proof -
      have "0 < vsum (opt_skills_db opt) Valor (mset (selected d))" using D(2,4) pos o(3) by simp
      then have ne: "selected d \<noteq> []" by (rule vsum_pos_nonempty)
      from some(6)[OF D(1) ne] D(2,3,4) show ?thesis by simp
    qed
    ultimately have "total_time d = total_time b" by simp
    with a ad some(1) minimal show ?thesis by simp
  qed
qed

theorem C4_dp_agrees_with_bruteforce_witness:
  "init_optimizer counterexample_db [''A'', ''B'', ''C''] 16 = Inr counterexample_optimizer
   \<and> (0::int) < 16
   \<and> (\<exists>a b. optimal_solution_dp counterexample_optimizer = Inr a
          \<and> optimal_solution_bruteforce counterexample_optimizer = Inr b
          \<and> map_option total_time a = map_option total_time b
          \<and> (\<forall>r c vc tc. a = Some r \<and> subseq c [''A'', ''B'', ''C'']
                \<and> sum_field counterexample_db Valor c = Inr vc \<and> 16 \<le> vc
                \<and> sum_field counterexample_db Tempo c = Inr tc \<longrightarrow> total_time r \<le> tc))"
proof -
  have h1: "init_optimizer counterexample_db [''A'', ''B'', ''C''] 16 = Inr counterexample_optimizer"
    by (simp add: counterexample_init counterexample_optimizer_def)
  have h2: "(0::int) < 16" by simp
  from C4_dp_agrees_with_bruteforce[OF h1 h2] h1 h2 show ?thesis by blast
qed

section \<open>Claims about the path solver\<close>

subsection \<open>C1\<close>

text \<open>
  Claim C1. For every solver built by the constructor (whatever the order in which the
  set of required skills is enumerated) and every pair of budgets, if the minimum
  feasible time exceeds the time budget or the minimum feasible complexity exceeds the
  complexity budget, \<open>solve_deterministic\<close> returns, and its result is not a success.
\<close>

theorem C1_no_success_below_minimum:
  assumes i: "init_solver iter db tgt cap = Inr sv" and perm: "\<forall>xs. mset (iter xs) = mset xs"
    and low: "max_time < min_feasible_time sv \<or> max_complexity < min_feasible_complexity sv"
  shows "\<exists>r. solve_deterministic sv max_time max_complexity = Inr r \<and> \<not> success r"
proof -
  from solve_deterministic_total[OF i perm, of max_time max_complexity]
  obtain r where r: "solve_deterministic sv max_time max_complexity = Inr r" by blast
  have "\<not> success r"
  proof (cases r)
    case (PathFound p v t c)
    with r success_uses_minimum[OF i perm, of max_time max_complexity p v t c] low
    show ?thesis by auto
  next
    case (Infeasible m)
    then show ?thesis by simp
  qed
  with r show ?thesis by blast
qed

theorem C1_no_success_below_minimum_witness:
  "init_solver (\<lambda>xs. xs) example_db ''S1'' 50 = Inr example_solver
   \<and> (100::int) < min_feasible_time example_solver
   \<and> (\<exists>r. solve_deterministic example_solver 100 10 = Inr r \<and> \<not> success r)"
proof -
  have h2: "\<forall>xs::string list. mset ((\<lambda>xs. xs) xs) = mset xs" by simp
  have h3: "100 < min_feasible_time example_solver \<or> 10 < min_feasible_complexity example_solver"
    by (simp add: example_solver_def)
  have h4: "(100::int) < min_feasible_time example_solver" by (simp add: example_solver_def)
  from C1_no_success_below_minimum[OF example_init h2 h3] example_init h4
  show ?thesis by blast
qed

subsection \<open>C2\<close>

text \<open>
  Claim C2. Every path returned by a successful \<open>solve_deterministic\<close> is a
  topological linearization: each skill on it is in the database and all of its
  prerequisites occur at earlier positions of the same path (and no skill occurs twice).
\<close>

theorem C2_path_is_linearization:
  assumes s: "solve_deterministic sv max_time max_complexity = Inr (PathFound p v t c)"
  shows "distinct p \<and> (\<forall>i < length p. \<exists>r. map_of (sv_skills_db sv) (p ! i) = Some r
            \<and> set (Pre_Reqs r) \<subseteq> set (take i p))"
proof -
  from s obtain topo key st where g:
    "state_inv (sv_skills_db sv) topo max_time max_complexity (key, st)" "p = path st"
    by (rule solve_success_state)
  from g have d: "distinct p" and pb: "prereqs_before (sv_skills_db sv) {} p"
    by (simp_all add: state_inv_def)
  have "\<exists>r. map_of (sv_skills_db sv) (p ! i) = Some r \<and> set (Pre_Reqs r) \<subseteq> set (take i p)"
    if "i < length p" for i
  proof -
    from prereqs_before_known[OF pb] nth_mem[OF that]
    obtain r where r: "map_of (sv_skills_db sv) (p ! i) = Some r"
      unfolding known_def by blast
    from prereqs_before_index[OF pb that r] r show ?thesis by auto
  qed
  with d show ?thesis by blast
qed

theorem C2_path_is_linearization_witness:
  "solve_deterministic example_solver 200 10 = Inr (PathFound [''H2'', ''H1'', ''S1''] 40 160 10)
   \<and> distinct [''H2'', ''H1'', ''S1'']
   \<and> (\<exists>r. map_of (sv_skills_db example_solver) ([''H2'', ''H1'', ''S1''] ! 2) = Some r
          \<and> set (Pre_Reqs r) \<subseteq> set (take 2 [''H2'', ''H1'', ''S1'']))"
proof -
  from C2_path_is_linearization[OF example_solve]
  have d: "distinct [''H2'', ''H1'', ''S1'']"
    and a: "\<forall>i < length [''H2'', ''H1'', ''S1''].
          \<exists>r. map_of (sv_skills_db example_solver) ([''H2'', ''H1'', ''S1''] ! i) = Some r
            \<and> set (Pre_Reqs r) \<subseteq> set (take i [''H2'', ''H1'', ''S1''])"
    by blast+
  have "(2::nat) < length [''H2'', ''H1'', ''S1'']" by simp
  with a have "\<exists>r. map_of (sv_skills_db example_solver) ([''H2'', ''H1'', ''S1''] ! 2) = Some r
          \<and> set (Pre_Reqs r) \<subseteq> set (take 2 [''H2'', ''H1'', ''S1''])"
    by blast
  with example_solve d show ?thesis by blast
qed

subsection \<open>C8\<close>

text \<open>
  Claim C8 as stated (the infeasibility result reports the minimum time and complexity
  required) fails: the result of \<open>solve_deterministic\<close> carries only a message built
  from the target and the two budgets passed in. Two databases whose target needs 5 and 7
  hours give, under the same budgets, the very same infeasibility result.
\<close>

theorem C8_result_omits_minimum_counterexample:
  "init_solver (\<lambda>xs. xs) (single_db 5) ''T'' 50 = Inr (single_solver 5)
   \<and> init_solver (\<lambda>xs. xs) (single_db 7) ''T'' 50 = Inr (single_solver 7)
   \<and> min_feasible_time (single_solver 5) = 5
   \<and> min_feasible_time (single_solver 7) = 7
   \<and> solve_deterministic (single_solver 5) 3 3 =
       Inr (Infeasible (''Imposs'' @ [CHR 0xC3, CHR 0xAD] @ ''vel atingir T com T''
         @ [CHR 0xE2, CHR 0x89, CHR 0xA4] @ ''3, C'' @ [CHR 0xE2, CHR 0x89, CHR 0xA4] @ ''3''))
   \<and> solve_deterministic (single_solver 7) 3 3 =
       Inr (Infeasible (''Imposs'' @ [CHR 0xC3, CHR 0xAD] @ ''vel atingir T com T''
         @ [CHR 0xE2, CHR 0x89, CHR 0xA4] @ ''3, C'' @ [CHR 0xE2, CHR 0x89, CHR 0xA4] @ ''3''))"
  using single_init[of 5] single_init[of 7] single_solve[of 5] single_solve[of 7]
  by (simp add: single_solver_def)

text \<open>
  Claim C8, amended. For every solver built by the constructor, \<open>solve_deterministic\<close>
  returns; when its result is not a success it is the infeasibility record whose only
  content is the message naming the target and the two budgets given. The minimum time
  and complexity are reported by \<open>check_feasibility\<close>: whenever a budget is below its
  minimum, the run is not a success and \<open>check_feasibility\<close> answers \<open>False\<close> with
  the message that names \<open>min_feasible_time\<close> and \<open>min_feasible_complexity\<close>.
\<close>

theorem C8_infeasible_result_names_budgets:
  assumes i: "init_solver iter db tgt cap = Inr sv" and perm: "\<forall>xs. mset (iter xs) = mset xs"
  shows "\<exists>r. solve_deterministic sv max_time max_complexity = Inr r
            \<and> (\<not> success r \<longrightarrow> r = Infeasible (infeasible_message tgt max_time max_complexity))
            \<and> (max_time < min_feasible_time sv \<or> max_complexity < min_feasible_complexity sv \<longrightarrow>
                 \<not> success r \<and>
                 check_feasibility sv max_time max_complexity =
                   (False, too_strict_message (min_feasible_time sv) (min_feasible_complexity sv)))"
proof -
  from solve_deterministic_total[OF i perm, of max_time max_complexity]
  obtain r where r: "solve_deterministic sv max_time max_complexity = Inr r"
    and sh: "r = Infeasible (infeasible_message tgt max_time max_complexity) \<or> (\<exists>p v t c. r = PathFound p v t c)"
    by blast
  have a: "\<not> success r \<longrightarrow> r = Infeasible (infeasible_message tgt max_time max_complexity)"
    using sh by auto
  have b: "\<not> success r" if "max_time < min_feasible_time sv \<or> max_complexity < min_feasible_complexity sv"
  proof (cases r)
    case (PathFound p v t c)
    with r success_uses_minimum[OF i perm, of max_time max_complexity p v t c] that
    show ?thesis by auto
  next
    case (Infeasible m)
    then show ?thesis by simp
  qed
  have c: "check_feasibility sv max_time max_complexity =
             (False, too_strict_message (min_feasible_time sv) (min_feasible_complexity sv))"
    if "max_time < min_feasible_time sv \<or> max_complexity < min_feasible_complexity sv"
    using that by (auto simp: check_feasibility_def)
  from r a b c show ?thesis by blast
qed

theorem C8_infeasible_result_names_budgets_witness:
  "init_solver (\<lambda>xs. xs) example_db ''S1'' 50 = Inr example_solver
   \<and> (100::int) < min_feasible_time example_solver
   \<and> solve_deterministic example_solver 100 10 = Inr (Infeasible (infeasible_message ''S1'' 100 10))
   \<and> check_feasibility example_solver 100 10 = (False, too_strict_message 160 10)"
proof -
  have h2: "\<forall>xs::string list. mset ((\<lambda>xs. xs) xs) = mset xs" by simp
  have h4: "(100::int) < min_feasible_time example_solver" by (simp add: example_solver_def)
  have m: "min_feasible_time example_solver = 160" "min_feasible_complexity example_solver = 10"
    by (simp_all add: example_solver_def)
  from C8_infeasible_result_names_budgets[OF example_init h2, of 100 10] h4
  have "solve_deterministic example_solver 100 10 = Inr (Infeasible (infeasible_message ''S1'' 100 10))"
    and "check_feasibility example_solver 100 10 =
           (False, too_strict_message (min_feasible_time example_solver)
              (min_feasible_complexity example_solver))"
    by auto
  with example_init h4 m show ?thesis by simp
qed

subsection \<open>C6\<close>

text \<open>
  Claim C6. Two invocations of \<open>solve_with_uncertainty\<close> on the same solver with the
  same budgets and the same number of trials give the same outcome, whatever state the
  global generator is in when each is called: the method re-seeds it from
  \<open>GLOBAL_SEED\<close> before the first draw. The outcome holds the sample sequence and
  the expected value, standard deviation, minimum and maximum computed from it.
\<close>

theorem C6_monte_carlo_deterministic:
  "map_sum id fst (solve_with_uncertainty np sv max_time max_complexity n g1) =
   map_sum id fst (solve_with_uncertainty np sv max_time max_complexity n g2)"
  by (simp add: solve_with_uncertainty_def split: sum.splits path_result.splits)

section \<open>Claims about the validator and the recommender\<close>

subsection \<open>C7\<close>

text \<open>
  Claim C7 says that a graph with a dangling prerequisite is reported, marked invalid and
  not searched for cycles, for either value of \<open>verbose\<close>. The code does so only when
  \<open>verbose\<close> is true: its \<open>return False, report\<close> sits inside \<open>if verbose:\<close>. On the
  graph whose only node \<open>A\<close> requires the missing \<open>Z\<close>, the verbose call returns the
  invalid report with the pair \<open>(A, Z)\<close>, but the quiet call goes on to the cycle search,
  which raises \<open>KeyError\<close> at \<open>color[prereq]\<close>. When a cycle is met before the missing
  key, the quiet call even returns \<open>True\<close> together with a report marked invalid.
\<close>

theorem C7_quiet_validation_does_not_halt:
  "validate_graph (\<lambda>xs. xs) 1000 dangling_db True =
     Inr (False, \<lparr>valid = False, cycles = [], orphan_nodes = [(''A'', ''Z'')],
                  missing_prereqs = [], topological_order = []\<rparr>)
   \<and> validate_graph (\<lambda>xs. xs) 1000 dangling_db False = Inl (KeyError ''Z'')
   \<and> validate_graph (\<lambda>xs. xs) 1000 dangling_cyclic_db False =
     Inr (True, \<lparr>valid = False, cycles = [''A'', ''A'', ''A''], orphan_nodes = [(''A'', ''Z'')],
                 missing_prereqs = [], topological_order = []\<rparr>)"
proof (intro conjI)
  show "validate_graph (\<lambda>xs. xs) 1000 dangling_db True =
     Inr (False, \<lparr>valid = False, cycles = [], orphan_nodes = [(''A'', ''Z'')],
                  missing_prereqs = [], topological_order = []\<rparr>)"
    by (simp add: validate_graph_def check_orphan_prereqs_def dangling_db_def initial_report_def)
  show "validate_graph (\<lambda>xs. xs) 1000 dangling_db False = Inl (KeyError ''Z'')"
    by (simp add: validate_graph_def check_orphan_prereqs_def dangling_db_def detect_cycles_def
        getitem_def numeral_eq_Suc)
  show "validate_graph (\<lambda>xs. xs) 1000 dangling_cyclic_db False =
     Inr (True, \<lparr>valid = False, cycles = [''A'', ''A'', ''A''], orphan_nodes = [(''A'', ''Z'')],
                 missing_prereqs = [], topological_order = []\<rparr>)"
    by (simp add: validate_graph_def check_orphan_prereqs_def dangling_cyclic_db_def
        detect_cycles_def getitem_def numeral_eq_Suc close_cycle.simps initial_report_def
        validator_topological_sort_def)
qed

subsection \<open>C9\<close>

text \<open>
  Claim C9 as stated (the exponent of the discount is the fractional number of years
  \<open>t / 2000\<close>) fails: the DP passes \<open>int(years_ahead)\<close>. A skill of value 10 finished at
  cumulative time 1000 contributes its full undiscounted value 10, not 10 times the
  discount factor to the power one half.
\<close>

theorem C9_half_year_counterexample:
  "dp_expand (init_recommender long_course_db) 10000 0 ({}, (0, [])) ''X'' [(0, [({}, (0, []))])]
     = Inr [(0, [({}, (0, []))]), (1000, [({''X''}, (10, [''X'']))])]
   \<and> scenario_sum (init_recommender long_course_db) ''X''
        \<lparr>Valor = 10, Tempo = 1000, Complexidade = 1, Pre_Reqs = []\<rparr> {} = 10
   \<and> (10 :: real) \<noteq> 0 + 10 * (95 / 100) powr (1000 / 2000)"
  using long_course_expansion long_course_undiscounted half_year_discount_not_one by simp

text \<open>
  Claim C9, amended. In the DP, the expected value a skill contributes when acquired at
  cumulative time \<open>t\<close> (not negative, within the horizon) is its scenario-weighted value
  multiplied by the discount factor raised to the whole number of years elapsed,
  \<open>int(t / 2000)\<close>, that is \<open>t div 2000\<close>: the fractional part of the years is
  truncated. The contribution is what the expansion adds to the state's value when it
  stores the new state.
\<close>

theorem C9_discount_uses_whole_years:
  assumes r: "getitem (rc_skills_db rc) skill_id = Inr r"
    and within: "t + Tempo r \<le> horizon_hours" and nonneg: "0 \<le> t + Tempo r"
    and fresh: "map_of (cell_at dp (t + Tempo r)) (skills_set \<union> {skill_id}) = None"
  shows "\<exists>dp'. dp_expand rc horizon_hours t (skills_set, (current_value, path0)) skill_id dp = Inr dp'
           \<and> map_of (cell_at dp' (t + Tempo r)) (skills_set \<union> {skill_id}) =
               Some (current_value
                       + scenario_sum rc skill_id r skills_set
                           * discount_factor (market_scenarios rc) ^ nat ((t + Tempo r) div 2000),
                     path0 @ [skill_id])"
proof -
  have d: "0 \<le> (t + Tempo r) div 2000" using nonneg by simp
  have p: "discount_factor (market_scenarios rc) powi ((t + Tempo r) div 2000)
             = discount_factor (market_scenarios rc) ^ nat ((t + Tempo r) div 2000)"
    using d by (simp add: power_int_def)
  have ev: "calculate_expected_value rc skill_id skills_set (py_int (real_of_int (t + Tempo r) / 2000))
              = Inr (scenario_sum rc skill_id r skills_set
                      * discount_factor (market_scenarios rc) ^ nat ((t + Tempo r) div 2000))"
    by (simp only: calculate_expected_value_def r sum.case Let_def
        py_int_whole_years[OF nonneg] p)
  have "dp_expand rc horizon_hours t (skills_set, (current_value, path0)) skill_id dp =
          Inr (dict_set (t + Tempo r)
                 (dict_set (skills_set \<union> {skill_id})
                    (current_value + scenario_sum rc skill_id r skills_set
                       * discount_factor (market_scenarios rc) ^ nat ((t + Tempo r) div 2000),
                     path0 @ [skill_id])
                    (cell_at dp (t + Tempo r))) dp)"
    using within
    by (simp only: dp_expand_def r sum.case Let_def ev fresh option.case fst_conv snd_conv
        not_less[symmetric] if_False if_True)
  then show ?thesis by (simp add: cell_at_dict_set_same map_of_dict_set_same)
qed

theorem C9_discount_uses_whole_years_witness:
  "getitem (rc_skills_db (init_recommender long_course_db)) ''X'' =
     Inr \<lparr>Valor = 10, Tempo = 1000, Complexidade = 1, Pre_Reqs = []\<rparr>
   \<and> (\<exists>dp'. dp_expand (init_recommender long_course_db) 10000 0 ({}, (0, [])) ''X''
               [(0, [({}, (0, []))])] = Inr dp'
          \<and> map_of (cell_at dp' 1000) {''X''} =
              Some (scenario_sum (init_recommender long_course_db) ''X''
                      \<lparr>Valor = 10, Tempo = 1000, Complexidade = 1, Pre_Reqs = []\<rparr> {}
                      * (95 / 100) ^ 0, [''X'']))"
proof -
  let ?r = "\<lparr>Valor = 10, Tempo = 1000, Complexidade = 1, Pre_Reqs = []\<rparr>"
  have h1: "getitem (rc_skills_db (init_recommender long_course_db)) ''X'' = Inr ?r"
    by (simp add: init_recommender_def long_course_db_def getitem_def)
  have h2: "0 + Tempo ?r \<le> 10000" by simp
  have h3: "0 \<le> 0 + Tempo ?r" by simp
  have h4: "map_of (cell_at [(0, [({}, (0, []))])] (0 + Tempo ?r)) ({} \<union> {''X''}) = None"
    by (simp add: cell_at_def)
  from C9_discount_uses_whole_years[OF h1 h2 h3 h4, of 0 "[]"]
  have "\<exists>dp'. dp_expand (init_recommender long_course_db) 10000 0 ({}, (0, [])) ''X''
               [(0, [({}, (0, []))])] = Inr dp'
          \<and> map_of (cell_at dp' 1000) {''X''} =
              Some (scenario_sum (init_recommender long_course_db) ''X'' ?r {}
                      * (95 / 100) ^ 0, [''X''])"
    by (simp add: init_recommender_def define_market_scenarios_def)
  with h1 show ?thesis by blast
qed

end
